theory Spec2Isabelle
  imports Main "HOL-Library.Monad_Syntax"
begin

section \<open>Data model of \<open>intrusive_list.h\<close>\<close>

text \<open>
  A value object embeds one \<open>list_element<Tag>\<close> base per tag. A pointer
  \<open>list_element<Tag>*\<close> is modelled by the pair of the object it lies in and the tag of
  the base: \<open>static_cast<list_element<Tag>*>(&element)\<close> is \<open>(element, Tag)\<close>, and
  \<open>list_element<>\<close> is \<open>list_element<default_tag>\<close>. A sentinel allocated by
  \<open>new list_element<Tag>()\<close> is an object of its own. \<open>nullptr\<close> is \<open>None\<close>.
\<close>

datatype tag = default_tag | user_tag nat

type_synonym obj = nat

type_synonym ptr = "obj \<times> tag"

record list_element =
  prev :: "ptr option"
  "next" :: "ptr option"

text \<open>The memory: the contents of every \<open>list_element\<close> subobject.\<close>

type_synonym heap = "ptr \<Rightarrow> list_element"

text \<open>The two field assignments \<open>p->prev = v\<close> and \<open>p->next = v\<close>.\<close>

definition set_prev :: "ptr \<Rightarrow> ptr option \<Rightarrow> heap \<Rightarrow> heap" where
  "set_prev p v h = h(p := (h p)\<lparr>prev := v\<rparr>)"

definition set_next :: "ptr \<Rightarrow> ptr option \<Rightarrow> heap \<Rightarrow> heap" where
  "set_next p v h = h(p := (h p)\<lparr>next := v\<rparr>)"

section \<open>\<open>list_element\<close>\<close>

text \<open>\<open>list_element() { prev = next = nullptr; }\<close>\<close>

definition list_element_ctor :: "ptr \<Rightarrow> heap \<Rightarrow> heap" where
  "list_element_ctor this h = set_prev this None (set_next this None h)"

text \<open>
  \<open>unlink\<close>: \<open>if (prev) prev->next = next; if (next) next->prev = prev;
  prev = nullptr; next = nullptr;\<close>. Both dereferences are guarded, so it cannot fail.
\<close>

definition unlink :: "ptr \<Rightarrow> heap \<Rightarrow> heap" where
  "unlink this h =
     (let h1 = (case prev (h this) of
                  None \<Rightarrow> h
                | Some p \<Rightarrow> set_next p (next (h this)) h);
          h2 = (case next (h1 this) of
                  None \<Rightarrow> h1
                | Some n \<Rightarrow> set_prev n (prev (h1 this)) h1);
          h3 = set_prev this None h2
      in set_next this None h3)"

text \<open>\<open>~list_element() { unlink(); }\<close>\<close>

definition list_element_dtor :: "ptr \<Rightarrow> heap \<Rightarrow> heap" where
  "list_element_dtor this h = unlink this h"

section \<open>\<open>list_iterator\<close>\<close>

text \<open>
  An iterator is the pointer it holds in \<open>element\<close>. \<open>operator++\<close> is
  \<open>element = element->next\<close>, \<open>operator--\<close> is \<open>element = element->prev\<close>; the result
  is the pointer stored, which may be null.
\<close>

definition iter_inc :: "heap \<Rightarrow> ptr \<Rightarrow> ptr option" where
  "iter_inc h element = next (h element)"

definition iter_dec :: "heap \<Rightarrow> ptr \<Rightarrow> ptr option" where
  "iter_dec h element = prev (h element)"

section \<open>\<open>list\<close>\<close>

text \<open>
  A member function of \<open>list\<close> takes the value of the field \<open>node\<close> of its object. A
  function that dereferences a pointer (with \<open>->\<close>, or with \<open>*\<close> as in \<open>&*p\<close>) returns
  \<open>None\<close> when that pointer is null. An iterator passed in is the non-null pointer it holds.
  \<open>it->prev\<close> on an iterator casts \<open>element\<close> to \<open>T*\<close> and selects the member \<open>prev\<close>
  of \<open>T\<close> again; in a value type with one \<open>list_element\<close> base, the only kind for which
  these bodies type-check, that is the field of the same \<open>list_element\<close>, so it is read as
  such.
\<close>

text \<open>\<open>list() { node = new list_element<Tag>(); node->next = node; node->prev = node; }\<close>,
  where \<open>node\<close> is the address the allocation returns.\<close>

definition list_ctor :: "ptr \<Rightarrow> heap \<Rightarrow> heap" where
  "list_ctor node h =
     (let h0 = list_element_ctor node h;
          h1 = set_next node (Some node) h0
      in set_prev node (Some node) h1)"

text \<open>\<open>clear() { node->prev = node->next = node; }\<close>\<close>

definition clear :: "ptr \<Rightarrow> heap \<Rightarrow> heap" where
  "clear node h = set_prev node (Some node) (set_next node (Some node) h)"

definition push_back :: "tag \<Rightarrow> ptr \<Rightarrow> obj \<Rightarrow> heap \<Rightarrow> heap option" where
  "push_back Tag node element h =
     do {
       np \<leftarrow> prev (h node);
       let h1 = set_next np (Some (element, Tag)) h;
       let h2 = set_prev (element, Tag) (prev (h1 node)) h1;
       let h3 = set_next (element, Tag) (Some node) h2;
       Some (set_prev node (Some (element, Tag)) h3)
     }"

definition pop_back :: "ptr \<Rightarrow> heap \<Rightarrow> heap option" where
  "pop_back node h =
     do {
       np \<leftarrow> prev (h node);
       let h1 = set_prev node (prev (h np)) h;
       np1 \<leftarrow> prev (h1 node);
       Some (set_next np1 (Some node) h1)
     }"

text \<open>\<open>back()\<close> and \<open>front()\<close> yield the object that contains the link pointed to.\<close>

definition back_list :: "ptr \<Rightarrow> heap \<Rightarrow> obj option" where
  "back_list node h = map_option fst (prev (h node))"

text \<open>
  \<open>push_front\<close> names the base \<open>list_element<>\<close> in its casts, and the members
  \<open>element.next\<close> and \<open>element.prev\<close> without a qualifier: wherever the function is
  well-typed these are the fields of the same \<open>list_element<default_tag>\<close>.
\<close>

definition push_front :: "ptr \<Rightarrow> obj \<Rightarrow> heap \<Rightarrow> heap option" where
  "push_front node element h =
     do {
       nn \<leftarrow> next (h node);
       let h1 = set_prev nn (Some (element, default_tag)) h;
       let h2 = set_next (element, default_tag) (next (h1 node)) h1;
       let h3 = set_next node (Some (element, default_tag)) h2;
       Some (set_prev (element, default_tag) (Some node) h3)
     }"

definition pop_front :: "ptr \<Rightarrow> heap \<Rightarrow> heap option" where
  "pop_front node h =
     do {
       nn \<leftarrow> next (h node);
       let h1 = set_next node (next (h nn)) h;
       nn1 \<leftarrow> next (h1 node);
       Some (set_prev nn1 (Some node) h1)
     }"

definition front_list :: "ptr \<Rightarrow> heap \<Rightarrow> obj option" where
  "front_list node h = map_option fst (next (h node))"

definition empty_list :: "ptr \<Rightarrow> heap \<Rightarrow> bool" where
  "empty_list node h = (next (h node) = Some node)"

text \<open>\<open>begin()\<close> is \<open>iterator(node->next)\<close>, \<open>end()\<close> is \<open>iterator(node)\<close>.\<close>

definition begin_list :: "ptr \<Rightarrow> heap \<Rightarrow> ptr option" where
  "begin_list node h = next (h node)"

definition end_list :: "ptr \<Rightarrow> ptr" where
  "end_list node = node"

text \<open>
  \<open>insert(pos, element)\<close>; like \<open>push_front\<close> it names \<open>list_element<>\<close>. The iterator
  returned holds \<open>mut_pos->prev\<close>.
\<close>

definition insert_list :: "ptr \<Rightarrow> obj \<Rightarrow> heap \<Rightarrow> (heap \<times> ptr) option" where
  "insert_list pos element h =
     do {
       pn \<leftarrow> next (h pos);
       mut_pos \<leftarrow> prev (h pn);
       mp \<leftarrow> prev (h mut_pos);
       let h1 = set_next mp (Some (element, default_tag)) h;
       mp1 \<leftarrow> prev (h1 mut_pos);
       let h2 = set_prev (element, default_tag) (Some mp1) h1;
       let h3 = set_prev mut_pos (Some (element, default_tag)) h2;
       let h4 = set_next (element, default_tag) (Some mut_pos) h3;
       it \<leftarrow> prev (h4 mut_pos);
       Some (h4, it)
     }"

text \<open>\<open>erase(pos)\<close>; the iterator returned holds \<open>mut_pos->next\<close>, read before
  \<open>mut_pos->unlink()\<close>.\<close>

definition erase :: "ptr \<Rightarrow> heap \<Rightarrow> (heap \<times> ptr) option" where
  "erase pos h =
     do {
       pn \<leftarrow> next (h pos);
       mut_pos \<leftarrow> prev (h pn);
       mp \<leftarrow> prev (h mut_pos);
       let h1 = set_next mp (next (h mut_pos)) h;
       mn \<leftarrow> next (h1 mut_pos);
       let h2 = set_prev mn (prev (h1 mut_pos)) h1;
       it \<leftarrow> next (h2 mut_pos);
       Some (unlink mut_pos h2, it)
     }"

text \<open>
  \<open>splice(pos, other, first, last)\<close>. The parameter \<open>other\<close> (the \<open>node\<close> of the other
  list) is not used by the body; the iterator \<open>last\<close> is written \<open>lst\<close>.
\<close>

definition splice_list :: "ptr \<Rightarrow> ptr \<Rightarrow> ptr \<Rightarrow> ptr \<Rightarrow> heap \<Rightarrow> heap option" where
  "splice_list pos other first lst h =
     (if first = lst then Some h
      else do {
        pn \<leftarrow> next (h pos);
        mut_pos \<leftarrow> prev (h pn);
        prev_last \<leftarrow> prev (h lst);
        mut_last \<leftarrow> next (h prev_last);
        fp \<leftarrow> prev (h first);
        mut_first \<leftarrow> next (h fp);
        let h1 = set_prev mut_last (prev (h mut_first)) h;
        p1 \<leftarrow> prev (h1 mut_first);
        let h2 = set_next p1 (Some mut_last) h1;
        let h3 = set_next prev_last (Some mut_pos) h2;
        p3 \<leftarrow> prev (h3 mut_pos);
        let h4 = set_prev mut_first (Some p3) h3;
        n4 \<leftarrow> next (h4 prev_last);
        let h5 = set_prev n4 (Some prev_last) h4;
        p5 \<leftarrow> prev (h5 mut_first);
        Some (set_next p5 (Some mut_first) h5)
      })"

text \<open>
  The \<open>list\<close> objects themselves: each holds the one field \<open>node\<close>. The move operations
  exchange that field between two objects, so the objects are kept in a store beside the
  memory.
\<close>

record store =
  mem :: heap
  list_node :: "nat \<Rightarrow> ptr"

text \<open>\<open>std::swap(node, r_list.node)\<close>\<close>

definition swap_node :: "nat \<Rightarrow> nat \<Rightarrow> store \<Rightarrow> store" where
  "swap_node this r_list s =
     s\<lparr>list_node := (list_node s)(this := list_node s r_list, r_list := list_node s this)\<rparr>"

text \<open>\<open>list(list&& r_list) : list() { std::swap(node, r_list.node); }\<close>, with the address
  that \<open>new\<close> returns in \<open>list()\<close> as a parameter.\<close>

definition move_ctor :: "nat \<Rightarrow> nat \<Rightarrow> ptr \<Rightarrow> store \<Rightarrow> store" where
  "move_ctor this r_list fresh s =
     swap_node this r_list
       (s\<lparr>mem := list_ctor fresh (mem s), list_node := (list_node s)(this := fresh)\<rparr>)"

text \<open>\<open>operator=(list&& r_list) { clear(); std::swap(node, r_list.node); return *this; }\<close>\<close>

definition move_assign :: "nat \<Rightarrow> nat \<Rightarrow> store \<Rightarrow> store" where
  "move_assign this r_list s =
     swap_node this r_list (s\<lparr>mem := clear (list_node s this) (mem s)\<rparr>)"

section \<open>The ring of a list\<close>

text \<open>
  \<open>chain h ps\<close>: each link of \<open>ps\<close> points with \<open>next\<close> at its successor in \<open>ps\<close>,
  and the successor points back with \<open>prev\<close>. \<open>ring h node xs\<close>: following \<open>next\<close>
  from the sentinel \<open>node\<close> visits exactly the links \<open>xs\<close>, each once, and returns to
  \<open>node\<close>; \<open>prev\<close> runs the same circle backwards.
\<close>

fun chain :: "heap \<Rightarrow> ptr list \<Rightarrow> bool" where
  "chain h (a # b # ps) = (next (h a) = Some b \<and> prev (h b) = Some a \<and> chain h (b # ps))"
| "chain h [a] = True"
| "chain h [] = True"

definition ring :: "heap \<Rightarrow> ptr \<Rightarrow> ptr list \<Rightarrow> bool" where
  "ring h node xs = (distinct (node # xs) \<and> chain h (node # xs @ [node]))"

text \<open>A link whose two neighbours exist and point back at it.\<close>

definition neighbours_ok :: "heap \<Rightarrow> ptr \<Rightarrow> bool" where
  "neighbours_ok h x =
     (case (prev (h x), next (h x)) of
        (Some p, Some n) \<Rightarrow> next (h p) = Some x \<and> prev (h n) = Some x
      | _ \<Rightarrow> False)"

text \<open>The memory after the first two assignments of \<open>splice\<close>, which take the range out
  of its list: \<open>mut_last->prev = mut_first->prev; mut_first->prev->next = mut_last\<close>.\<close>

definition cut_heap :: "ptr \<Rightarrow> ptr \<Rightarrow> heap \<Rightarrow> heap" where
  "cut_heap P lst h = set_next P (Some lst) (set_prev lst (Some P) h)"

text \<open>
  The two traversals a client makes with the iterators, over the source's \<open>begin()\<close>,
  \<open>end()\<close>, \<open>operator++\<close> and \<open>operator--\<close>. The forward loop is
  \<open>for (it = begin(); it != end(); ++it)\<close>; the reverse loop starts at \<open>end()\<close> and
  steps with \<open>--it\<close> until it has visited \<open>begin()\<close>. Each returns the links visited, in
  the order visited. \<open>fuel\<close> bounds the number of iterations; running out of fuel, or
  stepping through a null pointer, is \<open>None\<close>.
\<close>

fun forward_from :: "nat \<Rightarrow> heap \<Rightarrow> ptr \<Rightarrow> ptr option \<Rightarrow> ptr list option" where
  "forward_from 0 h e it = None"
| "forward_from (Suc k) h e None = None"
| "forward_from (Suc k) h e (Some p) =
     (if p = e then Some [] else map_option ((#) p) (forward_from k h e (iter_inc h p)))"

definition forward :: "nat \<Rightarrow> ptr \<Rightarrow> heap \<Rightarrow> ptr list option" where
  "forward fuel node h = forward_from fuel h (end_list node) (begin_list node h)"

fun backward_from :: "nat \<Rightarrow> heap \<Rightarrow> ptr option \<Rightarrow> ptr \<Rightarrow> ptr list option" where
  "backward_from 0 h b it = None"
| "backward_from (Suc k) h b it =
     (if Some it = b then Some []
      else case iter_dec h it of
             None \<Rightarrow> None
           | Some q \<Rightarrow> map_option ((#) q) (backward_from k h b q))"

definition backward :: "nat \<Rightarrow> ptr \<Rightarrow> heap \<Rightarrow> ptr list option" where
  "backward fuel node h = backward_from fuel h (begin_list node h) (end_list node)"

section \<open>Example memories\<close>

text \<open>
  One object per number: objects 0 and 10 are sentinels, the others are values. In
  \<open>ex_heap\<close> the list with sentinel \<open>ex_n\<close> holds \<open>ex_a\<close>, \<open>ex_b\<close>, \<open>ex_c\<close> and the list
  with sentinel \<open>ex_m\<close> holds \<open>ex_x\<close>, \<open>ex_y\<close>; every other link is unset.
\<close>

definition ex_n :: ptr where "ex_n = (0, default_tag)"
definition ex_a :: ptr where "ex_a = (1, default_tag)"
definition ex_b :: ptr where "ex_b = (2, default_tag)"
definition ex_c :: ptr where "ex_c = (3, default_tag)"
definition ex_m :: ptr where "ex_m = (10, default_tag)"
definition ex_x :: ptr where "ex_x = (11, default_tag)"
definition ex_y :: ptr where "ex_y = (12, default_tag)"

definition ex_heap :: heap where
  "ex_heap =
     (\<lambda>_. \<lparr>prev = None, next = None\<rparr>)
       (ex_n := \<lparr>prev = Some ex_c, next = Some ex_a\<rparr>,
        ex_a := \<lparr>prev = Some ex_n, next = Some ex_b\<rparr>,
        ex_b := \<lparr>prev = Some ex_a, next = Some ex_c\<rparr>,
        ex_c := \<lparr>prev = Some ex_b, next = Some ex_n\<rparr>,
        ex_m := \<lparr>prev = Some ex_y, next = Some ex_x\<rparr>,
        ex_x := \<lparr>prev = Some ex_m, next = Some ex_y\<rparr>,
        ex_y := \<lparr>prev = Some ex_x, next = Some ex_m\<rparr>)"

text \<open>Three list objects over \<open>ex_heap\<close>: object 1 is the list with sentinel \<open>ex_n\<close>, object 2
  the list with sentinel \<open>ex_m\<close>; object 3 is storage for a list not yet constructed.\<close>

definition ex_store :: store where
  "ex_store = \<lparr>mem = ex_heap, list_node = (\<lambda>_. ex_n)(2 := ex_m)\<rparr>"



section \<open>Sequences of operations on several lists\<close>

text \<open>
  A call of one of the five mutating operations on the list whose sentinel is the first
  argument: \<open>Insert node pos x\<close> is \<open>list.insert(pos, x)\<close>, \<open>Erase node pos\<close> is
  \<open>list.erase(pos)\<close>, \<open>Splice node pos other first lst\<close> is
  \<open>list.splice(pos, other, first, last)\<close>. The bodies of \<open>insert\<close>, \<open>erase\<close> and \<open>splice\<close>
  never read \<open>this->node\<close>, so \<open>exec\<close> does not pass it. The lists are instances of one
  \<open>list<T, Tag>\<close>.
\<close>

datatype op =
    Push_front ptr obj
  | Push_back ptr obj
  | Insert ptr ptr obj
  | Erase ptr ptr
  | Splice ptr ptr ptr ptr ptr

fun exec :: "tag \<Rightarrow> op \<Rightarrow> heap \<Rightarrow> heap option" where
  "exec Tag (Push_front node x) h = push_front node x h"
| "exec Tag (Push_back node x) h = push_back Tag node x h"
| "exec Tag (Insert node pos x) h = map_option fst (insert_list pos x h)"
| "exec Tag (Erase node pos) h = map_option fst (erase pos h)"
| "exec Tag (Splice node pos other first lst) h = splice_list pos other first lst h"

fun run :: "tag \<Rightarrow> op list \<Rightarrow> heap \<Rightarrow> heap option" where
  "run Tag [] h = Some h"
| "run Tag (c # cs) h = exec Tag c h \<bind> run Tag cs"

text \<open>
  The sequence of elements each list is meant to hold, by sentinel, and what each call
  does to it. \<open>before pos R xs\<close> puts \<open>R\<close> immediately before \<open>pos\<close> in \<open>xs\<close> (at the end
  when \<open>pos\<close> is not in \<open>xs\<close>, that is for \<open>end()\<close>); \<open>range_of first lst xs\<close> is the range
  \<open>[first, lst)\<close> of \<open>xs\<close>; \<open>without R xs\<close> is \<open>xs\<close> with the elements of \<open>R\<close> taken out.
  A \<open>splice\<close> whose position lies inside the range takes the range out of its list and
  puts it nowhere.
\<close>

type_synonym contents = "ptr \<Rightarrow> ptr list"

definition before :: "ptr \<Rightarrow> ptr list \<Rightarrow> ptr list \<Rightarrow> ptr list" where
  "before pos R xs = takeWhile (\<lambda>y. y \<noteq> pos) xs @ R @ dropWhile (\<lambda>y. y \<noteq> pos) xs"

definition range_of :: "ptr \<Rightarrow> ptr \<Rightarrow> ptr list \<Rightarrow> ptr list" where
  "range_of first lst xs = takeWhile (\<lambda>y. y \<noteq> lst) (dropWhile (\<lambda>y. y \<noteq> first) xs)"

definition without :: "ptr list \<Rightarrow> ptr list \<Rightarrow> ptr list" where
  "without R xs = filter (\<lambda>y. y \<notin> set R) xs"

fun effect :: "tag \<Rightarrow> op \<Rightarrow> contents \<Rightarrow> contents" where
  "effect Tag (Push_front node x) el = el(node := (x, default_tag) # el node)"
| "effect Tag (Push_back node x) el = el(node := el node @ [(x, Tag)])"
| "effect Tag (Insert node pos x) el = el(node := before pos [(x, default_tag)] (el node))"
| "effect Tag (Erase node pos) el = el(node := without [pos] (el node))"
| "effect Tag (Splice node pos other first lst) el =
     (if first = lst then el
      else let R = range_of first lst (el other);
               el1 = el(other := without R (el other))
           in if pos \<in> set R then el1 else el1(node := before pos R (el1 node)))"

fun effect_all :: "tag \<Rightarrow> op list \<Rightarrow> contents \<Rightarrow> contents" where
  "effect_all Tag [] el = el"
| "effect_all Tag (c # cs) el = effect_all Tag cs (effect Tag c el)"

text \<open>
  The stated preconditions, over the lists \<open>nodes\<close>: the list called is one of them; an
  element pushed or inserted is linked in none of them; a position is a position of the
  list called; \<open>erase\<close> is not given \<open>end()\<close>; \<open>[first, lst)\<close> is a range of \<open>other\<close>, that
  is \<open>first\<close> is a position of \<open>other\<close> and \<open>lst\<close> one at or after it.
\<close>

definition unlinked :: "ptr list \<Rightarrow> contents \<Rightarrow> ptr \<Rightarrow> bool" where
  "unlinked nodes el e = (\<forall>n \<in> set nodes. e \<notin> set (n # el n))"

fun pre :: "tag \<Rightarrow> ptr list \<Rightarrow> op \<Rightarrow> contents \<Rightarrow> bool" where
  "pre Tag nodes (Push_front node x) el = (node \<in> set nodes \<and> unlinked nodes el (x, default_tag))"
| "pre Tag nodes (Push_back node x) el = (node \<in> set nodes \<and> unlinked nodes el (x, Tag))"
| "pre Tag nodes (Insert node pos x) el =
     (node \<in> set nodes \<and> pos \<in> set (el node @ [node]) \<and> unlinked nodes el (x, default_tag))"
| "pre Tag nodes (Erase node pos) el = (node \<in> set nodes \<and> pos \<in> set (el node))"
| "pre Tag nodes (Splice node pos other first lst) el =
     (node \<in> set nodes \<and> other \<in> set nodes \<and> pos \<in> set (el node @ [node]) \<and>
      first \<in> set (el other @ [other]) \<and>
      lst \<in> set (dropWhile (\<lambda>y. y \<noteq> first) (el other) @ [other]))"

fun pre_all :: "tag \<Rightarrow> ptr list \<Rightarrow> op list \<Rightarrow> contents \<Rightarrow> bool" where
  "pre_all Tag nodes [] el = True"
| "pre_all Tag nodes (c # cs) el = (pre Tag nodes c el \<and> pre_all Tag nodes cs (effect Tag c el))"

text \<open>Every list is a ring of its contents, and no link lies in two lists.\<close>

definition consistent :: "heap \<Rightarrow> ptr list \<Rightarrow> contents \<Rightarrow> bool" where
  "consistent h nodes el =
     (distinct nodes \<and>
      (\<forall>n \<in> set nodes. ring h n (el n)) \<and>
      (\<forall>n \<in> set nodes. \<forall>m \<in> set nodes. n \<noteq> m \<longrightarrow> set (n # el n) \<inter> set (m # el m) = {}))"

text \<open>
  A sequence of calls on the two lists \<open>ex_n\<close> and \<open>ex_m\<close>, both empty at the start:
  \<open>push_back\<close> of \<open>a\<close>, \<open>b\<close>, \<open>c\<close> on \<open>ex_n\<close>, \<open>erase(b)\<close>, \<open>insert(end(), d)\<close> with \<open>d\<close>
  object 4, \<open>push_front(x)\<close> on \<open>ex_m\<close>, then \<open>ex_m.splice(ex_m.end(), ex_n, c, ex_n.end())\<close>.
\<close>

definition ex_ops :: "op list" where
  "ex_ops =
     [Push_back ex_n 1, Push_back ex_n 2, Push_back ex_n 3, Erase ex_n ex_b,
      Insert ex_n ex_n 4, Push_front ex_m 11, Splice ex_m ex_m ex_n ex_c ex_n]"

section \<open>Independence of the tags\<close>




section \<open>Field updates and chains\<close>

lemma prev_set_prev [simp]: "prev (set_prev p v h q) = (if q = p then v else prev (h q))"
  by (simp add: set_prev_def)

lemma next_set_prev [simp]: "next (set_prev p v h q) = next (h q)"
  by (simp add: set_prev_def)

lemma prev_set_next [simp]: "prev (set_next p v h q) = prev (h q)"
  by (simp add: set_next_def)

lemma next_set_next [simp]: "next (set_next p v h q) = (if q = p then v else next (h q))"
  by (simp add: set_next_def)

lemma set_prev_other: "q \<noteq> p \<Longrightarrow> set_prev p v h q = h q"
  by (simp add: set_prev_def)

lemma set_next_other: "q \<noteq> p \<Longrightarrow> set_next p v h q = h q"
  by (simp add: set_next_def)

lemma chain_Cons: "chain h (a # ps) = (chain h ps \<and> (ps \<noteq> [] \<longrightarrow> next (h a) = Some (hd ps) \<and> prev (h (hd ps)) = Some a))"
  by (cases ps) auto

lemma chain_append:
  "chain h (as @ bs) =
     (chain h as \<and> chain h bs \<and>
      (as \<noteq> [] \<and> bs \<noteq> [] \<longrightarrow> next (h (last as)) = Some (hd bs) \<and> prev (h (hd bs)) = Some (last as)))"
proof (induction as rule: chain.induct)
  case (1 h a b ps)
  then show ?case by auto
next
  case (2 h a)
  then show ?case by (simp add: chain_Cons)
next
  case (3 h)
  then show ?case by simp
qed

lemma chain_cong:
  "(\<And>p. p \<in> set ps \<Longrightarrow> h' p = h p) \<Longrightarrow> chain h' ps = chain h ps"
  by (induction h ps rule: chain.induct) auto

lemma hd_notin_tl: "distinct ps \<Longrightarrow> hd ps \<notin> set (tl ps)"
  by (cases ps) auto

lemma last_notin_butlast: "distinct ps \<Longrightarrow> last ps \<notin> set (butlast ps)"
  by (cases ps rule: rev_cases) auto

lemma chain_eqI:
  assumes "\<And>p. p \<in> set (butlast ps) \<Longrightarrow> next (h' p) = next (h p)"
    and "\<And>p. p \<in> set (tl ps) \<Longrightarrow> prev (h' p) = prev (h p)"
  shows "chain h' ps = chain h ps"
  using assms by (induction h ps rule: chain.induct) auto

lemma butlast_neq_last: "distinct ps \<Longrightarrow> p \<in> set (butlast ps) \<Longrightarrow> p \<noteq> last ps"
  using last_notin_butlast by blast

lemma in_set_tlD: "p \<in> set (tl ps) \<Longrightarrow> p \<in> set ps"
  by (cases ps) auto

lemma tl_neq_hd: "distinct ps \<Longrightarrow> p \<in> set (tl ps) \<Longrightarrow> p \<noteq> hd ps"
  using hd_notin_tl by blast

lemma ring_split:
  assumes "ring h n (C @ D)"
  shows "chain h (n # C)" and "chain h (D @ [n])"
    and "next (h (last (n # C))) = Some (hd (D @ [n]))"
    and "prev (h (hd (D @ [n]))) = Some (last (n # C))"
proof -
  from assms have "chain h ((n # C) @ (D @ [n]))" by (simp add: ring_def)
  then have *: "chain h (n # C) \<and> chain h (D @ [n]) \<and> next (h (last (n # C))) = Some (hd (D @ [n]))
     \<and> prev (h (hd (D @ [n]))) = Some (last (n # C))"
    by (subst (asm) chain_append) simp
  from * show "chain h (n # C)" by simp
  from * show "chain h (D @ [n])" by simp
  from * show "next (h (last (n # C))) = Some (hd (D @ [n]))" by simp
  from * show "prev (h (hd (D @ [n]))) = Some (last (n # C))" by simp
qed

lemma ring_next_prev:
  assumes "ring h n xs" "p \<in> set (n # xs)"
  shows "\<exists>q \<in> set (n # xs). next (h p) = Some q \<and> prev (h q) = Some p"
proof -
  from assms(2) obtain as bs where ab: "n # xs = as @ p # bs" by (meson split_list)
  from assms(1) have "chain h ((n # xs) @ [n])" by (simp add: ring_def)
  then have "chain h (as @ (p # bs @ [n]))" unfolding ab by simp
  then have "chain h (p # bs @ [n])" by (subst (asm) chain_append) simp
  then have "next (h p) = Some (hd (bs @ [n])) \<and> prev (h (hd (bs @ [n]))) = Some p"
    by (subst (asm) chain_Cons) simp
  moreover have "hd (bs @ [n]) \<in> set (n # xs)"
  proof -
    have "hd (bs @ [n]) \<in> set (n # bs)" by (cases bs) auto
    moreover have "set bs \<subseteq> set (n # xs)" unfolding ab by auto
    ultimately show ?thesis by auto
  qed
  ultimately show ?thesis by blast
qed

lemma ring_prev_next:
  assumes "ring h n xs" "p \<in> set (n # xs)"
  shows "\<exists>q \<in> set (n # xs). prev (h p) = Some q \<and> next (h q) = Some p"
proof -
  from assms(2) have "p \<in> set (xs @ [n])" by auto
  then obtain as bs where ab: "xs @ [n] = as @ p # bs" by (meson split_list)
  with assms(1) have "chain h ((n # as) @ (p # bs))" by (simp add: ring_def)
  then have "next (h (last (n # as))) = Some p \<and> prev (h p) = Some (last (n # as))"
    by (subst (asm) chain_append) simp
  moreover have "last (n # as) \<in> set (n # xs)"
  proof (cases as rule: rev_cases)
    case Nil then show ?thesis by simp
  next
    case (snoc ys y)
    with ab have "y \<in> set (xs @ [n])" by simp
    with snoc show ?thesis by auto
  qed
  ultimately show ?thesis by blast
qed

lemma ring_mut_pos:
  assumes "ring h n xs" "p \<in> set (n # xs)"
  shows "next (h p) \<bind> (\<lambda>q. prev (h q)) = Some p"
  using ring_next_prev[OF assms] by auto

lemma ring_frame:
  assumes "ring h n xs" "\<And>p. p \<in> set (n # xs) \<Longrightarrow> h' p = h p"
  shows "ring h' n xs"
proof -
  have "chain h' (n # xs @ [n]) = chain h (n # xs @ [n])"
    by (rule chain_cong) (use assms(2) in auto)
  with assms(1) show ?thesis by (simp add: ring_def)
qed

lemma pos_in: "hd (D @ [n]) \<in> set (D @ [n])"
  by (cases D) auto

lemma ring_split3:
  assumes "ring h n (C @ R @ D)" "R \<noteq> []"
  shows "chain h (n # C)" and "chain h R" and "chain h (D @ [n])"
    and "next (h (last (n # C))) = Some (hd R)"
    and "prev (h (hd R)) = Some (last (n # C))"
    and "next (h (last R)) = Some (hd (D @ [n]))"
    and "prev (h (hd (D @ [n]))) = Some (last R)"
proof -
  have r1: "ring h n (C @ (R @ D))" and r2: "ring h n ((C @ R) @ D)" using assms(1) by simp_all
  have hd1: "hd ((R @ D) @ [n]) = hd R" and la: "last (n # C @ R) = last R" using assms(2) by simp_all
  show "chain h (n # C)" by (rule ring_split(1)[OF r1])
  show "chain h (D @ [n])" by (rule ring_split(2)[OF r2])
  show "next (h (last (n # C))) = Some (hd R)" using ring_split(3)[OF r1] hd1 by simp
  show "prev (h (hd R)) = Some (last (n # C))" using ring_split(4)[OF r1] hd1 by simp
  show "next (h (last R)) = Some (hd (D @ [n]))" using ring_split(3)[OF r2] la by simp
  show "prev (h (hd (D @ [n]))) = Some (last R)" using ring_split(4)[OF r2] la by simp
  have "chain h ((n # C) @ R)" using ring_split(1)[OF r2] by simp
  then show "chain h R" by (subst (asm) chain_append) simp
qed

lemma ring_insert_range:
  assumes r: "ring h n (C @ D)"
    and R: "R \<noteq> []" "distinct R" "set R \<inter> set (n # C @ D) = {}" "chain h R"
    and names: "Q = last (n # C)" "pos = hd (D @ [n])" "f = hd R" "l = last R"
    and nx: "\<And>p. p \<noteq> Q \<Longrightarrow> p \<noteq> l \<Longrightarrow> next (h' p) = next (h p)"
    and pv: "\<And>p. p \<noteq> pos \<Longrightarrow> p \<noteq> f \<Longrightarrow> prev (h' p) = prev (h p)"
    and l: "next (h' Q) = Some f" "prev (h' f) = Some Q"
      "next (h' l) = Some pos" "prev (h' pos) = Some l"
  shows "ring h' n (C @ R @ D)"
proof -
  from r have d: "distinct (n # C @ D)" by (simp add: ring_def)
  have Qin: "Q \<in> set (n # C)" unfolding names by (rule last_in_set) simp
  have posin: "pos \<in> set (D @ [n])" unfolding names by (rule pos_in)
  have Rin: "f \<in> set R" "l \<in> set R" using R(1) names by simp_all
  note s = ring_split[OF r, folded names]
  have c1: "chain h' (n # C) = chain h (n # C)"
  proof (rule chain_eqI)
    fix p assume a: "p \<in> set (butlast (n # C))"
    have "p \<noteq> Q" using butlast_neq_last[OF _ a] d names by simp
    moreover have "p \<noteq> l" using in_set_butlastD[OF a] Rin R(3) by auto
    ultimately show "next (h' p) = next (h p)" by (rule nx)
  next
    fix p assume a: "p \<in> set (tl (n # C))"
    then have "p \<noteq> pos" using d posin by auto
    moreover have "p \<noteq> f" using a Rin R(3) by auto
    ultimately show "prev (h' p) = prev (h p)" by (rule pv)
  qed
  have c2: "chain h' (D @ [n]) = chain h (D @ [n])"
  proof (rule chain_eqI)
    fix p assume a: "p \<in> set (butlast (D @ [n]))"
    then have "p \<noteq> Q" using d Qin by auto
    moreover have "p \<noteq> l" using a Rin R(3) by auto
    ultimately show "next (h' p) = next (h p)" by (rule nx)
  next
    fix p assume a: "p \<in> set (tl (D @ [n]))"
    have "p \<noteq> pos" using tl_neq_hd[OF _ a] d names by simp
    moreover have "p \<noteq> f" using in_set_tlD[OF a] Rin R(3) by auto
    ultimately show "prev (h' p) = prev (h p)" by (rule pv)
  qed
  have c3: "chain h' R = chain h R"
  proof (rule chain_eqI)
    fix p assume a: "p \<in> set (butlast R)"
    have "p \<noteq> l" using butlast_neq_last[OF R(2) a] names by simp
    moreover have "p \<noteq> Q" using in_set_butlastD[OF a] Qin R(3) by auto
    ultimately show "next (h' p) = next (h p)" using nx by blast
  next
    fix p assume a: "p \<in> set (tl R)"
    have "p \<noteq> f" using tl_neq_hd[OF R(2) a] names by simp
    moreover have "p \<noteq> pos" using in_set_tlD[OF a] posin R(3) by auto
    ultimately show "prev (h' p) = prev (h p)" using pv by blast
  qed
  have "chain h' ((n # C) @ R @ (D @ [n]))"
    apply (subst chain_append)
    apply (subst chain_append)
    using c1 c2 c3 s l R(1,4) names[symmetric] by simp
  then show ?thesis using d R(2,3) by (auto simp: ring_def)
qed

lemma ring_remove_range:
  assumes r: "ring h n (C @ R @ D)"
    and names: "Q = last (n # C)" "pos = hd (D @ [n])"
    and nx: "\<And>p. p \<in> set (n # C @ D) \<Longrightarrow> p \<noteq> Q \<Longrightarrow> next (h' p) = next (h p)"
    and pv: "\<And>p. p \<in> set (n # C @ D) \<Longrightarrow> p \<noteq> pos \<Longrightarrow> prev (h' p) = prev (h p)"
    and l: "next (h' Q) = Some pos" "prev (h' pos) = Some Q"
  shows "ring h' n (C @ D)"
proof -
  from r have d: "distinct (n # C @ R @ D)" by (simp add: ring_def)
  have r1: "ring h n (C @ (R @ D))" and r2: "ring h n ((C @ R) @ D)" using r by simp_all
  have Qin: "Q \<in> set (n # C)" unfolding names by (rule last_in_set) simp
  have posin: "pos \<in> set (D @ [n])" unfolding names by (rule pos_in)
  have c1: "chain h' (n # C) = chain h (n # C)"
  proof (rule chain_eqI)
    fix p assume a: "p \<in> set (butlast (n # C))"
    have "p \<noteq> Q" using butlast_neq_last[OF _ a] d names by simp
    moreover have "p \<in> set (n # C @ D)" using in_set_butlastD[OF a] by auto
    ultimately show "next (h' p) = next (h p)" using nx by blast
  next
    fix p assume a: "p \<in> set (tl (n # C))"
    then have "p \<noteq> pos" using d posin by auto
    moreover have "p \<in> set (n # C @ D)" using a by auto
    ultimately show "prev (h' p) = prev (h p)" using pv by blast
  qed
  have c2: "chain h' (D @ [n]) = chain h (D @ [n])"
  proof (rule chain_eqI)
    fix p assume a: "p \<in> set (butlast (D @ [n]))"
    then have "p \<noteq> Q" using d Qin by auto
    moreover have "p \<in> set (n # C @ D)" using a by auto
    ultimately show "next (h' p) = next (h p)" using nx by blast
  next
    fix p assume a: "p \<in> set (tl (D @ [n]))"
    have "p \<noteq> pos" using tl_neq_hd[OF _ a] d names by simp
    moreover have "p \<in> set (n # C @ D)" using in_set_tlD[OF a] by auto
    ultimately show "prev (h' p) = prev (h p)" using pv by blast
  qed
  have "chain h' ((n # C) @ (D @ [n]))"
    apply (subst chain_append)
    using c1 c2 ring_split(1)[OF r1] ring_split(2)[OF r2] l names[symmetric] by simp
  then show ?thesis using d by (auto simp: ring_def)
qed

section \<open>Each operation on a ring\<close>

lemma ring_last_prev:
  assumes "ring h n xs"
  shows "prev (h n) = Some (last (n # xs))" "next (h (last (n # xs))) = Some n"
  using ring_split[of h n xs "[]"] assms by simp_all

lemma ring_first_next:
  assumes "ring h n xs"
  shows "next (h n) = Some (hd (xs @ [n]))" "prev (h (hd (xs @ [n]))) = Some n"
  using ring_split[of h n "[]" xs] assms by simp_all

lemma list_ctor_ring: "ring (list_ctor n h) n []"
  by (simp add: ring_def list_ctor_def list_element_ctor_def)

lemma list_ctor_frame: "p \<noteq> n \<Longrightarrow> list_ctor n h p = h p"
  by (simp add: list_ctor_def list_element_ctor_def set_next_other set_prev_other)

lemma clear_ring: "ring (clear n h) n []"
  by (simp add: ring_def clear_def)

lemma clear_frame: "p \<noteq> n \<Longrightarrow> clear n h p = h p"
  by (simp add: clear_def set_next_other set_prev_other)

lemma push_back_ring:
  assumes r: "ring h n xs" and e: "e = (x, Tag)" "e \<notin> set (n # xs)"
  shows "\<exists>h'. push_back Tag n x h = Some h' \<and> ring h' n (xs @ [e]) \<and>
           (\<forall>p. p \<notin> set (e # n # xs) \<longrightarrow> h' p = h p)"
proof -
  define Q where "Q = last (n # xs)"
  define h4 where "h4 = set_prev n (Some e) (set_next e (Some n) (set_prev e (Some Q) (set_next Q (Some e) h)))"
  have Qin: "Q \<in> set (n # xs)" unfolding Q_def by (rule last_in_set) simp
  have ne: "n \<noteq> e" "Q \<noteq> e" using Qin e(2) by auto
  note lp = ring_last_prev[OF r, folded Q_def]
  have run: "push_back Tag n x h = Some h4"
    using lp by (simp add: push_back_def h4_def e(1)[symmetric])
  have "ring h4 n (xs @ [e] @ [])"
  proof (rule ring_insert_range[where Q = Q and pos = n and f = e and l = e])
    show "ring h n (xs @ [])" using r by simp
    show "set [e] \<inter> set (n # xs @ []) = {}" using e(2) by simp
    show "Q = last (n # xs)" by (rule Q_def)
    show "next (h4 Q) = Some e" "prev (h4 e) = Some Q" "next (h4 e) = Some n" "prev (h4 n) = Some e"
      using ne by (simp_all add: h4_def)
  qed (simp_all add: h4_def)
  moreover have "h4 p = h p" if "p \<notin> set (e # n # xs)" for p
  proof -
    from that Qin have "p \<noteq> Q" "p \<noteq> e" "p \<noteq> n" by auto
    then show ?thesis by (simp add: h4_def set_next_other set_prev_other)
  qed
  ultimately show ?thesis using run by auto
qed

lemma push_front_ring:
  assumes r: "ring h n xs" and e: "e = (x, default_tag)" "e \<notin> set (n # xs)"
  shows "\<exists>h'. push_front n x h = Some h' \<and> ring h' n (e # xs) \<and>
           (\<forall>p. p \<notin> set (e # n # xs) \<longrightarrow> h' p = h p)"
proof -
  define pos where "pos = hd (xs @ [n])"
  define h4 where "h4 = set_prev e (Some n) (set_next n (Some e) (set_next e (Some pos) (set_prev pos (Some e) h)))"
  have posin: "pos \<in> set (xs @ [n])" unfolding pos_def by (rule pos_in)
  have ne: "n \<noteq> e" "pos \<noteq> e" using posin e(2) by auto
  note fn = ring_first_next[OF r, folded pos_def]
  have run: "push_front n x h = Some h4"
    using fn by (simp add: push_front_def h4_def e(1)[symmetric])
  have "ring h4 n ([] @ [e] @ xs)"
  proof (rule ring_insert_range[where Q = n and pos = pos and f = e and l = e])
    show "ring h n ([] @ xs)" using r by simp
    show "set [e] \<inter> set (n # [] @ xs) = {}" using e(2) by simp
    show "pos = hd (xs @ [n])" by (rule pos_def)
    show "next (h4 n) = Some e" "prev (h4 e) = Some n" "next (h4 e) = Some pos" "prev (h4 pos) = Some e"
      using ne by (simp_all add: h4_def)
  qed (simp_all add: h4_def)
  moreover have "h4 p = h p" if "p \<notin> set (e # n # xs)" for p
  proof -
    from that posin have "p \<noteq> pos" "p \<noteq> e" "p \<noteq> n" by auto
    then show ?thesis by (simp add: h4_def set_next_other set_prev_other)
  qed
  ultimately show ?thesis using run by auto
qed

lemma insert_ring:
  assumes r: "ring h n (C @ D)" and e: "e = (x, default_tag)" "e \<notin> set (n # C @ D)"
    and pos: "pos = hd (D @ [n])"
  shows "\<exists>h'. insert_list pos x h = Some (h', e) \<and> ring h' n (C @ e # D) \<and>
           (\<forall>p. p \<notin> set (e # n # C @ D) \<longrightarrow> h' p = h p)"
proof -
  define Q where "Q = last (n # C)"
  define h4 where "h4 = set_next e (Some pos) (set_prev pos (Some e) (set_prev e (Some Q) (set_next Q (Some e) h)))"
  have Qin: "Q \<in> set (n # C)" unfolding Q_def by (rule last_in_set) simp
  have posin: "pos \<in> set (D @ [n])" unfolding pos by (rule pos_in)
  have pe: "pos \<noteq> e" "Q \<noteq> e" using Qin posin e(2) by auto
  note s = ring_split[OF r, folded Q_def pos]
  have mut: "next (h pos) \<bind> (\<lambda>q. prev (h q)) = Some pos"
    by (rule ring_mut_pos[OF r]) (use posin in auto)
  then obtain pn where pn: "next (h pos) = Some pn" "prev (h pn) = Some pos"
    by (cases "next (h pos)") auto
  have run: "insert_list pos x h = Some (h4, e)"
    using pn s(4) pe by (simp add: insert_list_def h4_def e(1)[symmetric])
  have "ring h4 n (C @ [e] @ D)"
  proof (rule ring_insert_range[where Q = Q and pos = pos and f = e and l = e])
    show "ring h n (C @ D)" by (rule r)
    show "set [e] \<inter> set (n # C @ D) = {}" using e(2) by simp
    show "Q = last (n # C)" by (rule Q_def)
    show "pos = hd (D @ [n])" by (rule pos)
    show "next (h4 Q) = Some e" "prev (h4 e) = Some Q" "next (h4 e) = Some pos" "prev (h4 pos) = Some e"
      using pe by (simp_all add: h4_def)
  qed (simp_all add: h4_def)
  moreover have "h4 p = h p" if "p \<notin> set (e # n # C @ D)" for p
  proof -
    from that Qin posin have "p \<noteq> pos" "p \<noteq> e" "p \<noteq> Q" by auto
    then show ?thesis by (simp add: h4_def set_next_other set_prev_other)
  qed
  ultimately show ?thesis using run by auto
qed

lemma unlink_ring:
  assumes r: "ring h n (C @ a # D)"
  shows "ring (unlink a h) n (C @ D)"
    and "unlink a h a = \<lparr>prev = None, next = None\<rparr>"
    and "\<And>p. p \<notin> set (n # C @ D) \<Longrightarrow> p \<noteq> a \<Longrightarrow> unlink a h p = h p"
proof -
  define Q where "Q = last (n # C)"
  define pos where "pos = hd (D @ [n])"
  define hu where "hu = set_next a None (set_prev a None (set_prev pos (Some Q) (set_next Q (Some pos) h)))"
  from r have d: "distinct (n # C @ a # D)" by (simp add: ring_def)
  have Qin: "Q \<in> set (n # C)" unfolding Q_def by (rule last_in_set) simp
  have posin: "pos \<in> set (D @ [n])" unfolding pos_def by (rule pos_in)
  have ne: "a \<noteq> Q" "a \<noteq> pos" using d Qin posin by auto
  have r': "ring h n (C @ [a] @ D)" using r by simp
  have f: "prev (h a) = Some Q" "next (h a) = Some pos"
    using ring_split3(5,6)[OF r'] by (simp_all add: Q_def pos_def)
  have run: "unlink a h = hu"
    using f ne by (simp add: unlink_def hu_def)
  have "ring hu n (C @ D)"
  proof (rule ring_remove_range[where Q = Q and pos = pos and R = "[a]"])
    show "ring h n (C @ [a] @ D)" by (rule r')
    show "Q = last (n # C)" by (rule Q_def)
    show "pos = hd (D @ [n])" by (rule pos_def)
    show "next (hu Q) = Some pos" "prev (hu pos) = Some Q" using ne by (simp_all add: hu_def)
  next
    fix p assume "p \<in> set (n # C @ D)" "p \<noteq> Q"
    moreover from this d have "p \<noteq> a" by auto
    ultimately show "next (hu p) = next (h p)" by (simp add: hu_def)
  next
    fix p assume "p \<in> set (n # C @ D)" "p \<noteq> pos"
    moreover from this d have "p \<noteq> a" by auto
    ultimately show "prev (hu p) = prev (h p)" by (simp add: hu_def)
  qed
  then show "ring (unlink a h) n (C @ D)" by (simp add: run)
  show "unlink a h a = \<lparr>prev = None, next = None\<rparr>"
    by (simp add: run hu_def set_next_def set_prev_def)
  show "unlink a h p = h p" if "p \<notin> set (n # C @ D)" "p \<noteq> a" for p
  proof -
    from that Qin posin have "p \<noteq> Q" "p \<noteq> pos" by auto
    with that(2) show ?thesis by (simp add: run hu_def set_next_other set_prev_other)
  qed
qed

lemma unlink_unset: "prev (h a) = None \<Longrightarrow> next (h a) = None \<Longrightarrow> unlink a h = h"
  by (rule ext) (simp add: unlink_def set_next_def set_prev_def)

lemma unlink_idem: "unlink a (unlink a h) = unlink a h"
proof (rule unlink_unset)
  show "prev (unlink a h a) = None" by (simp add: unlink_def Let_def)
  show "next (unlink a h a) = None" by (simp add: unlink_def Let_def)
qed

lemma erase_eq_unlink:
  assumes r: "ring h n (C @ a # D)"
  shows "erase a h = Some (unlink a h, hd (D @ [n]))"
proof -
  define Q where "Q = last (n # C)"
  define pos where "pos = hd (D @ [n])"
  from r have d: "distinct (n # C @ a # D)" by (simp add: ring_def)
  have Qin: "Q \<in> set (n # C)" unfolding Q_def by (rule last_in_set) simp
  have posin: "pos \<in> set (D @ [n])" unfolding pos_def by (rule pos_in)
  have ne: "a \<noteq> Q" "a \<noteq> pos" using d Qin posin by auto
  have r': "ring h n (C @ [a] @ D)" using r by simp
  have f: "prev (h a) = Some Q" "next (h a) = Some pos"
    using ring_split3(5,6)[OF r'] by (simp_all add: Q_def pos_def)
  have mut: "next (h a) \<bind> (\<lambda>q. prev (h q)) = Some a"
    by (rule ring_mut_pos[OF r]) simp
  then have pn: "prev (h pos) = Some a" using f by simp
  have "unlink a (set_prev pos (Some Q) (set_next Q (Some pos) h)) = unlink a h"
    using f ne by (intro ext) (simp add: unlink_def set_next_def set_prev_def)
  then show ?thesis
    using f pn ne by (simp add: erase_def pos_def[symmetric])
qed

lemma pop_back_ring:
  assumes r: "ring h n (xs @ [a])"
  shows "\<exists>h'. pop_back n h = Some h' \<and> ring h' n xs \<and> h' a = h a \<and>
           (\<forall>p. p \<notin> set (n # xs) \<longrightarrow> h' p = h p)"
proof -
  define Q where "Q = last (n # xs)"
  define h2 where "h2 = set_next Q (Some n) (set_prev n (Some Q) h)"
  from r have d: "distinct (n # xs @ [a])" by (simp add: ring_def)
  have Qin: "Q \<in> set (n # xs)" unfolding Q_def by (rule last_in_set) simp
  have r': "ring h n (xs @ [a] @ [])" using r by simp
  have f: "prev (h a) = Some Q" "prev (h n) = Some a"
    using ring_split3(5,7)[OF r'] by (simp_all add: Q_def)
  have run: "pop_back n h = Some h2"
    using f by (simp add: pop_back_def h2_def)
  have "ring h2 n (xs @ [])"
  proof (rule ring_remove_range[where Q = Q and pos = n and R = "[a]"])
    show "ring h n (xs @ [a] @ [])" by (rule r')
    show "Q = last (n # xs)" by (rule Q_def)
  qed (simp_all add: h2_def)
  moreover have "h2 p = h p" if "p \<notin> set (n # xs)" for p
  proof -
    from that Qin have "p \<noteq> Q" "p \<noteq> n" by auto
    then show ?thesis by (simp add: h2_def set_next_other set_prev_other)
  qed
  moreover have "a \<notin> set (n # xs)" using d by auto
  ultimately show ?thesis using run by auto
qed


section \<open>\<open>splice\<close> on rings\<close>

lemma cut_heap_other: "p \<noteq> P \<Longrightarrow> p \<noteq> lst \<Longrightarrow> cut_heap P lst h p = h p"
  by (simp add: cut_heap_def set_next_other set_prev_other)

lemma cut_ring:
  assumes r: "ring h m (A @ R @ B)" and P: "P = last (m # A)" and lst: "lst = hd (B @ [m])"
  shows "ring (cut_heap P lst h) m (A @ B)"
    and "R \<noteq> [] \<Longrightarrow> chain (cut_heap P lst h) R"
proof -
  from r have d: "distinct (m # A @ R @ B)" by (simp add: ring_def)
  have Pin: "P \<in> set (m # A)" unfolding P by (rule last_in_set) simp
  have lin: "lst \<in> set (B @ [m])" unfolding lst by (rule pos_in)
  show "ring (cut_heap P lst h) m (A @ B)"
    by (rule ring_remove_range[OF r P lst]) (simp_all add: cut_heap_def)
  assume R: "R \<noteq> []"
  have "chain (cut_heap P lst h) R = chain h R"
  proof (rule chain_cong)
    fix p assume "p \<in> set R"
    with d Pin lin have "p \<noteq> P" "p \<noteq> lst" by auto
    then show "cut_heap P lst h p = h p" by (rule cut_heap_other)
  qed
  then show "chain (cut_heap P lst h) R" using ring_split3(2)[OF r R] by simp
qed

lemma splice_good:
  assumes src: "ring h m (A @ R @ B)" and R: "R \<noteq> []"
    and first: "first = hd R" and lst: "lst = hd (B @ [m])"
    and dst: "ring (cut_heap (last (m # A)) lst h) l (C @ D)"
    and disj: "set R \<inter> set (l # C @ D) = {}"
    and pos: "pos = hd (D @ [l])"
    and mut: "next (h pos) \<bind> (\<lambda>q. prev (h q)) = Some pos"
  shows "\<exists>h'. splice_list pos other first lst h = Some h' \<and> ring h' l (C @ R @ D) \<and>
           (\<forall>p. p \<notin> set R \<union> set (l # C @ D) \<longrightarrow> h' p = cut_heap (last (m # A)) lst h p)"
proof -
  define P where "P = last (m # A)"
  define pl where "pl = last R"
  define Q where "Q = last (l # C)"
  define h2 where "h2 = cut_heap P lst h"
  define h6 where "h6 = set_next Q (Some first) (set_prev pos (Some pl) (set_prev first (Some Q)
                          (set_next pl (Some pos) h2)))"
  from src have d: "distinct (m # A @ R @ B)" by (simp add: ring_def)
  have dst': "ring h2 l (C @ D)" using dst by (simp add: h2_def P_def)
  have Pin: "P \<in> set (m # A)" unfolding P_def by (rule last_in_set) simp
  have lin: "lst \<in> set (B @ [m])" unfolding lst by (rule pos_in)
  have Rin: "first \<in> set R" "pl \<in> set R" using R by (simp_all add: first pl_def)
  have Qin: "Q \<in> set (l # C)" unfolding Q_def by (rule last_in_set) simp
  have posin: "pos \<in> set (D @ [l])" unfolding pos by (rule pos_in)
  have ne: "first \<noteq> lst" "first \<noteq> pos" "pl \<noteq> Q" "pl \<noteq> P" "first \<noteq> P" "pl \<noteq> lst"
    using d Pin lin Rin Qin posin disj by auto
  note s = ring_split3(4-7)[OF src R, folded P_def first lst pl_def]
  note t = ring_split(3,4)[OF dst', folded Q_def pos]
  from mut obtain pn where pn: "next (h pos) = Some pn" "prev (h pn) = Some pos"
    by (cases "next (h pos)") auto
  have h2f: "prev (h2 first) = Some P" "next (h2 pl) = Some lst"
    using ne s by (simp_all add: h2_def cut_heap_def)
  have h1f: "prev (set_prev lst (Some P) h first) = Some P"
    using ne s by simp
  have pq: "pos = lst \<Longrightarrow> Q = P" "pos \<noteq> lst \<Longrightarrow> prev (h pos) = Some Q"
    using t(2) by (auto simp: h2_def cut_heap_def split: if_splits)
  have run: "splice_list pos other first lst h = Some h6"
    unfolding splice_list_def
    using ne pn s h1f pq
    by (simp add: cut_heap_def[symmetric] h2_def[symmetric] h6_def)
  have c: "chain h2 R" unfolding h2_def by (rule cut_ring(2)[OF src P_def lst R])
  have "ring h6 l (C @ R @ D)"
  proof (rule ring_insert_range[where Q = Q and pos = pos and f = first and l = pl])
    show "ring h2 l (C @ D)" by (rule dst')
    show "distinct R" using d by simp
    show "set R \<inter> set (l # C @ D) = {}" by (rule disj)
    show "next (h6 Q) = Some first" "prev (h6 first) = Some Q" "next (h6 pl) = Some pos"
      "prev (h6 pos) = Some pl"
      using ne by (simp_all add: h6_def)
  qed (simp_all add: R c Q_def pos first pl_def h6_def)
  moreover have "h6 p = h2 p" if "p \<notin> set R \<union> set (l # C @ D)" for p
  proof -
    from that Rin Qin posin have "p \<noteq> Q" "p \<noteq> pos" "p \<noteq> first" "p \<noteq> pl" by auto
    then show ?thesis by (simp add: h6_def set_next_other set_prev_other)
  qed
  ultimately show ?thesis using run by (auto simp: h2_def P_def)
qed

lemma chain_prev_in:
  assumes "chain h R" "p \<in> set R" "p \<noteq> hd R"
  shows "\<exists>q \<in> set R. prev (h p) = Some q"
proof -
  from assms(2) obtain as bs where ab: "R = as @ p # bs" by (meson split_list)
  with assms(3) have ne: "as \<noteq> []" by (cases as) auto
  from assms(1) have "chain h (as @ (p # bs))" by (simp add: ab)
  then have "prev (h p) = Some (last as)" using ne by (subst (asm) chain_append) simp
  moreover have "last as \<in> set R" using ne ab by simp
  ultimately show ?thesis by blast
qed

lemma splice_bad:
  assumes src: "ring h m (A @ R @ B)" and R: "R \<noteq> []"
    and first: "first = hd R" and lst: "lst = hd (B @ [m])"
    and pos: "pos \<in> set R"
  shows "\<exists>h'. splice_list pos other first lst h = Some h' \<and> ring h' m (A @ B) \<and>
           (\<forall>p. p \<notin> set R \<longrightarrow> h' p = cut_heap (last (m # A)) lst h p)"
proof -
  define P where "P = last (m # A)"
  define pl where "pl = last R"
  define h2 where "h2 = cut_heap P lst h"
  from src have d: "distinct (m # A @ R @ B)" by (simp add: ring_def)
  have Pin: "P \<in> set (m # A)" unfolding P_def by (rule last_in_set) simp
  have lin: "lst \<in> set (B @ [m])" unfolding lst by (rule pos_in)
  have Rin: "first \<in> set R" "pl \<in> set R" using R by (simp_all add: first pl_def)
  have ne: "first \<noteq> lst" "pl \<noteq> P" "first \<noteq> P" "pl \<noteq> lst" "pos \<noteq> lst" "pos \<noteq> P"
    using d Pin lin Rin pos by auto
  note s = ring_split3(4-7)[OF src R, folded P_def first lst pl_def]
  have "next (h pos) \<bind> (\<lambda>q. prev (h q)) = Some pos"
    by (rule ring_mut_pos[OF src]) (use pos in auto)
  then obtain pn where pn: "next (h pos) = Some pn" "prev (h pn) = Some pos"
    by (cases "next (h pos)") auto
  have "\<exists>pp. prev (h pos) = Some pp \<and> (pos \<noteq> first \<longrightarrow> pp \<in> set R)"
  proof (cases "pos = first")
    case True
    then show ?thesis using s(2) by simp
  next
    case False
    then show ?thesis
      using chain_prev_in[OF ring_split3(2)[OF src R] pos] first by auto
  qed
  then obtain pp where pp: "prev (h pos) = Some pp" "pos \<noteq> first \<Longrightarrow> pp \<in> set R" by blast
  define p5 where "p5 = (if first = pos then pl else pp)"
  define h6 where "h6 = set_next p5 (Some first) (set_prev pos (Some pl) (set_prev first (Some pp)
                          (set_next pl (Some pos) h2)))"
  have p5in: "p5 \<in> set R" using pp(2) Rin by (auto simp: p5_def)
  have h1f: "prev (set_prev lst (Some P) h first) = Some P"
    using ne s by simp
  have run: "splice_list pos other first lst h = Some h6"
    unfolding splice_list_def
    using ne pn s h1f pp(1)
    by (simp add: cut_heap_def[symmetric] h2_def[symmetric] h6_def p5_def)
  have fr: "h6 p = h2 p" if "p \<notin> set R" for p
  proof -
    from that Rin p5in pos have "p \<noteq> p5" "p \<noteq> pos" "p \<noteq> first" "p \<noteq> pl" by auto
    then show ?thesis by (simp add: h6_def set_next_other set_prev_other)
  qed
  have "ring h2 m (A @ B)" unfolding h2_def by (rule cut_ring(1)[OF src P_def lst])
  then have "ring h6 m (A @ B)"
  proof (rule ring_frame)
    fix p assume "p \<in> set (m # A @ B)"
    with d have "p \<notin> set R" by auto
    then show "h6 p = h2 p" by (rule fr)
  qed
  then show ?thesis using run fr by (auto simp: h2_def P_def)
qed

section \<open>Further facts about rings\<close>

lemmas ex_defs = ex_n_def ex_a_def ex_b_def ex_c_def ex_m_def ex_x_def ex_y_def

lemma ex_ring_n: "ring ex_heap ex_n [ex_a, ex_b, ex_c]"
  by (simp add: ring_def ex_heap_def ex_defs)

lemma ex_ring_m: "ring ex_heap ex_m [ex_x, ex_y]"
  by (simp add: ring_def ex_heap_def ex_defs)

lemma ring_next_at:
  assumes "ring h n xs" "n # xs = as @ p # bs"
  shows "next (h p) = Some (hd (bs @ [n]))"
proof -
  from assms(1) have "chain h ((n # xs) @ [n])" by (simp add: ring_def)
  then have "chain h (as @ (p # bs @ [n]))" unfolding assms(2) by simp
  then have "chain h (p # bs @ [n])" by (subst (asm) chain_append) simp
  then show ?thesis by (subst (asm) chain_Cons) simp
qed

lemma ring_prev_at:
  assumes "ring h n xs" "xs @ [n] = as @ p # bs"
  shows "prev (h p) = Some (last (n # as))"
proof -
  from assms have "chain h ((n # as) @ (p # bs))" by (simp add: ring_def)
  then show ?thesis by (subst (asm) chain_append) simp
qed

lemma ring_fields_eq:
  assumes "ring h n xs" "ring h' n xs" "p \<in> set (n # xs)"
  shows "h' p = h p"
proof -
  from assms(3) obtain as bs where ab: "n # xs = as @ p # bs" by (meson split_list)
  from assms(3) have "p \<in> set (xs @ [n])" by auto
  then obtain cs ds where cd: "xs @ [n] = cs @ p # ds" by (meson split_list)
  have "next (h' p) = next (h p)"
    using ring_next_at[OF assms(1) ab] ring_next_at[OF assms(2) ab] by simp
  moreover have "prev (h' p) = prev (h p)"
    using ring_prev_at[OF assms(1) cd] ring_prev_at[OF assms(2) cd] by simp
  ultimately show ?thesis by simp
qed

lemma ring_member_ptrs:
  assumes "ring h n xs" "p \<in> set (n # xs)"
  shows "\<exists>q \<in> set (n # xs). next (h p) = Some q" and "\<exists>q \<in> set (n # xs). prev (h p) = Some q"
  using ring_next_prev[OF assms] ring_prev_next[OF assms] by blast+

lemma insert_end_push_back:
  assumes r: "ring h n xs" and e: "e = (x, default_tag)" "e \<notin> set (n # xs)"
  shows "insert_list n x h = map_option (\<lambda>h'. (h', e)) (push_back default_tag n x h)"
proof -
  define Q where "Q = last (n # xs)"
  have Qin: "Q \<in> set (n # xs)" unfolding Q_def by (rule last_in_set) simp
  have ne: "n \<noteq> e" "Q \<noteq> e" using Qin e(2) by auto
  note lp = ring_last_prev[OF r, folded Q_def]
  have "next (h n) \<bind> (\<lambda>q. prev (h q)) = Some n"
    by (rule ring_mut_pos[OF r]) simp
  then obtain pn where pn: "next (h n) = Some pn" "prev (h pn) = Some n"
    by (cases "next (h n)") auto
  have "set_next e (Some n) (set_prev n (Some e) (set_prev e (Some Q) (set_next Q (Some e) h)))
      = set_prev n (Some e) (set_next e (Some n) (set_prev e (Some Q) (set_next Q (Some e) h)))"
    using ne by (intro ext) (simp add: set_next_def set_prev_def)
  then show ?thesis
    using pn lp ne by (simp add: insert_list_def push_back_def e(1)[symmetric])
qed

lemma splice_general:
  assumes src: "ring h M (A @ R @ B)"
    and first: "first = hd (R @ B @ [M])" and lst: "lst = hd (B @ [M])"
    and dst: "(L = M \<and> C @ D = A @ B) \<or>
              (ring h L (C @ D) \<and> set (M # A @ R @ B) \<inter> set (L # C @ D) = {})"
    and pos: "pos = hd (D @ [L])"
  shows "\<exists>h'. splice_list pos other first lst h = Some h' \<and> ring h' L (C @ R @ D) \<and>
           (L \<noteq> M \<longrightarrow> ring h' M (A @ B)) \<and>
           (\<forall>p. p \<notin> set (M # A @ R @ B) \<union> set (L # C @ D) \<longrightarrow> h' p = h p)"
proof (cases "R = []")
  case True
  then have "first = lst" using first lst by simp
  then have run: "splice_list pos other first lst h = Some h" by (simp add: splice_list_def)
  have rM: "ring h M (A @ B)" using src True by simp
  have "ring h L (C @ D)"
  proof -
    from dst show ?thesis
    proof
      assume a: "L = M \<and> C @ D = A @ B"
      then have "L = M" and CD: "C @ D = A @ B" by blast+
      show ?thesis using rM by (simp only: CD \<open>L = M\<close>)
    next
      assume "ring h L (C @ D) \<and> set (M # A @ R @ B) \<inter> set (L # C @ D) = {}"
      then show ?thesis by blast
    qed
  qed
  then have "ring h L (C @ R @ D)" using True by simp
  then show ?thesis using run rM by blast
next
  case False
  define P where "P = last (M # A)"
  define h2 where "h2 = cut_heap P lst h"
  from src have d: "distinct (M # A @ R @ B)" by (simp add: ring_def)
  have f: "first = hd R" using first False by simp
  have Pin: "P \<in> set (M # A)" unfolding P_def by (rule last_in_set) simp
  have lin: "lst \<in> set (B @ [M])" unfolding lst by (rule pos_in)
  have posin: "pos \<in> set (D @ [L])" unfolding pos by (rule pos_in)
  have cut: "ring h2 M (A @ B)" unfolding h2_def by (rule cut_ring(1)[OF src P_def lst])
  have three: "ring h2 L (C @ D) \<and> set R \<inter> set (L # C @ D) = {} \<and>
               next (h pos) \<bind> (\<lambda>q. prev (h q)) = Some pos"
  proof -
    from dst show ?thesis
    proof
      assume a: "L = M \<and> C @ D = A @ B"
      then have LM: "L = M" and CD: "C @ D = A @ B" by blast+
      have s: "set (C @ D) = set (A @ B)" by (simp only: CD)
      have 1: "ring h2 L (C @ D)" using cut by (simp only: CD LM)
      have 2: "set R \<inter> set (L # C @ D) = {}"
      proof -
        have "set R \<inter> set (M # A @ B) = {}" using d by auto
        moreover have "set (L # C @ D) = set (M # A @ B)" using s LM by simp
        ultimately show ?thesis by simp
      qed
      have "set D \<subseteq> set (A @ B)" using s by auto
      with posin LM have "pos \<in> set (M # A @ R @ B)" by auto
      then have 3: "next (h pos) \<bind> (\<lambda>q. prev (h q)) = Some pos" by (rule ring_mut_pos[OF src])
      from 1 2 3 show ?thesis by blast
    next
      assume a: "ring h L (C @ D) \<and> set (M # A @ R @ B) \<inter> set (L # C @ D) = {}"
      then have rL: "ring h L (C @ D)" and dj: "set (M # A @ R @ B) \<inter> set (L # C @ D) = {}"
        by blast+
      from rL have 1: "ring h2 L (C @ D)"
      proof (rule ring_frame)
        fix p assume "p \<in> set (L # C @ D)"
        with dj Pin lin have "p \<noteq> P" "p \<noteq> lst" by auto
        then show "h2 p = h p" unfolding h2_def by (rule cut_heap_other)
      qed
      have 2: "set R \<inter> set (L # C @ D) = {}" using dj by auto
      have 3: "next (h pos) \<bind> (\<lambda>q. prev (h q)) = Some pos"
        by (rule ring_mut_pos[OF rL]) (use posin in auto)
      from 1 2 3 show ?thesis by blast
    qed
  qed
  from three have dst2: "ring (cut_heap (last (M # A)) lst h) L (C @ D)"
    and disj: "set R \<inter> set (L # C @ D) = {}"
    and mut: "next (h pos) \<bind> (\<lambda>q. prev (h q)) = Some pos"
    unfolding h2_def P_def by blast+
  from splice_good[OF src False f lst dst2 disj pos mut]
  obtain h' where h': "splice_list pos other first lst h = Some h'" "ring h' L (C @ R @ D)"
    "\<And>p. p \<notin> set R \<union> set (L # C @ D) \<Longrightarrow> h' p = h2 p"
    unfolding h2_def P_def by blast
  have "ring h' M (A @ B)" if "L \<noteq> M"
  proof -
    from dst that have a: "set (M # A @ R @ B) \<inter> set (L # C @ D) = {}" by blast
    from cut show ?thesis
    proof (rule ring_frame)
      fix p assume "p \<in> set (M # A @ B)"
      with a d have "p \<notin> set R \<union> set (L # C @ D)" by auto
      then show "h' p = h2 p" by (rule h'(3))
    qed
  qed
  moreover have "h' p = h p" if "p \<notin> set (M # A @ R @ B) \<union> set (L # C @ D)" for p
  proof -
    from that Pin lin have "p \<noteq> P" "p \<noteq> lst" by auto
    then have "h2 p = h p" unfolding h2_def by (rule cut_heap_other)
    moreover have "h' p = h2 p" by (rule h'(3)) (use that in auto)
    ultimately show ?thesis by simp
  qed
  ultimately show ?thesis using h'(1,2) by blast
qed

lemma splice_at_last:
  assumes src: "ring h M (A @ R @ B)" and first: "first = hd (R @ B @ [M])"
    and lst: "lst = hd (B @ [M])"
  shows "splice_list lst other first lst h = Some h"
proof -
  have "(M = M \<and> A @ B = A @ B) \<or>
        (ring h M (A @ B) \<and> set (M # A @ R @ B) \<inter> set (M # A @ B) = {})" by simp
  from splice_general[OF src first lst this lst]
  obtain h' where h': "splice_list lst other first lst h = Some h'" "ring h' M (A @ R @ B)"
    "\<And>p. p \<notin> set (M # A @ R @ B) \<union> set (M # A @ B) \<Longrightarrow> h' p = h p" by blast
  have "h' p = h p" for p
  proof (cases "p \<in> set (M # A @ R @ B)")
    case True
    then show ?thesis by (rule ring_fields_eq[OF src h'(2)])
  next
    case False
    then show ?thesis by (intro h'(3)) auto
  qed
  then have "h' = h" by (rule ext)
  with h'(1) show ?thesis by simp
qed

lemma ring_same_ends:
  assumes "ring h n xs" "ring h' n xs"
  shows "empty_list n h' = empty_list n h" "front_list n h' = front_list n h"
    "back_list n h' = back_list n h"
  using ring_first_next(1)[OF assms(1)] ring_first_next(1)[OF assms(2)]
    ring_last_prev(1)[OF assms(1)] ring_last_prev(1)[OF assms(2)]
  by (simp_all add: empty_list_def front_list_def back_list_def)

text \<open>
  \<open>push_back\<close> qualifies every member with \<open>list_element<Tag>\<close>, and \<open>pop_back\<close> and
  \<open>pop_front\<close> go through the sentinel only: on a list whose links all have the tag \<open>Tag\<close>
  they leave every link of another tag as it was.
\<close>

lemma tag_respected:
  assumes r: "ring h node xs" and t: "\<forall>p \<in> set (node # xs). snd p = Tag" and q: "snd q \<noteq> Tag"
  shows "push_back Tag node x h = Some h' \<Longrightarrow> h' q = h q"
    and "pop_back node h = Some h' \<Longrightarrow> h' q = h q"
    and "pop_front node h = Some h' \<Longrightarrow> h' q = h q"
proof -
  have notin: "q \<notin> set (node # xs)" using t q by blast
  have out: "q \<noteq> p" if "p \<in> set (node # xs)" for p using that notin by blast
  have nd: "node \<in> set (node # xs)" by simp
  from ring_member_ptrs[OF r nd] obtain np nn where
    np: "prev (h node) = Some np" "np \<in> set (node # xs)" and
    nn: "next (h node) = Some nn" "nn \<in> set (node # xs)" by blast
  from ring_member_ptrs(2)[OF r np(2)] obtain np1 where
    np1: "prev (h np) = Some np1" "np1 \<in> set (node # xs)" by blast
  from ring_member_ptrs(1)[OF r nn(2)] obtain nn1 where
    nn1: "next (h nn) = Some nn1" "nn1 \<in> set (node # xs)" by blast
  have qx: "q \<noteq> (x, Tag)" using q by auto
  show "h' q = h q" if "push_back Tag node x h = Some h'"
    using that np(1) out[OF np(2)] out[OF nd] qx
    by (auto simp: push_back_def set_next_other set_prev_other)
  show "h' q = h q" if "pop_back node h = Some h'"
    using that np(1) np1(1) out[OF np1(2)] out[OF nd]
    by (auto simp: pop_back_def set_next_other set_prev_other)
  show "h' q = h q" if "pop_front node h = Some h'"
    using that nn(1) nn1(1) out[OF nn1(2)] out[OF nd]
    by (auto simp: pop_front_def set_next_other set_prev_other)
qed

text \<open>
  What the pointers left in a popped element do later: on an empty list, \<open>push_back(a)\<close>,
  \<open>pop_back()\<close>, \<open>push_back(b)\<close>, then the destruction of \<open>a\<close>. The destructor unlinks \<open>a\<close>
  through its old pointers, which both lead to the sentinel, and the list that held \<open>b\<close> is
  empty afterwards.
\<close>

lemma popped_element_dtor:
  "(push_back default_tag ex_n 1 (list_ctor ex_n (\<lambda>_. \<lparr>prev = None, next = None\<rparr>))
      \<bind> pop_back ex_n \<bind> push_back default_tag ex_n 2) \<noteq> None \<and>
   ring (the (push_back default_tag ex_n 1 (list_ctor ex_n (\<lambda>_. \<lparr>prev = None, next = None\<rparr>))
      \<bind> pop_back ex_n \<bind> push_back default_tag ex_n 2)) ex_n [ex_b] \<and>
   ring (list_element_dtor ex_a
      (the (push_back default_tag ex_n 1 (list_ctor ex_n (\<lambda>_. \<lparr>prev = None, next = None\<rparr>))
         \<bind> pop_back ex_n \<bind> push_back default_tag ex_n 2))) ex_n []"
  by (simp add: ring_def list_ctor_def list_element_ctor_def push_back_def pop_back_def
      list_element_dtor_def unlink_def set_prev_def set_next_def ex_defs)

section \<open>Sequences of operations keep every list a ring\<close>

lemma split_at_pos:
  assumes "pos \<in> set (xs @ [n])" "n \<notin> set xs"
  shows "xs = takeWhile (\<lambda>y. y \<noteq> pos) xs @ dropWhile (\<lambda>y. y \<noteq> pos) xs"
    and "pos = hd (dropWhile (\<lambda>y. y \<noteq> pos) xs @ [n])"
proof -
  show "xs = takeWhile (\<lambda>y. y \<noteq> pos) xs @ dropWhile (\<lambda>y. y \<noteq> pos) xs" by simp
  show "pos = hd (dropWhile (\<lambda>y. y \<noteq> pos) xs @ [n])"
  proof (cases "pos \<in> set xs")
    case True
    then have ne: "dropWhile (\<lambda>y. y \<noteq> pos) xs \<noteq> []" by (simp add: dropWhile_eq_Nil_conv)
    from hd_dropWhile[OF ne] ne show ?thesis by simp
  next
    case False
    then have D: "dropWhile (\<lambda>y. y \<noteq> pos) xs = []" by (auto simp: dropWhile_eq_Nil_conv)
    from False assms(1) have "pos = n" by simp
    then show ?thesis unfolding D by simp
  qed
qed

lemma range_split:
  assumes f: "first \<in> set (xs @ [m])"
    and l: "lst \<in> set (dropWhile (\<lambda>y. y \<noteq> first) xs @ [m])"
    and m: "m \<notin> set xs"
  defines "A \<equiv> takeWhile (\<lambda>y. y \<noteq> first) xs"
    and "R \<equiv> range_of first lst xs"
    and "B \<equiv> dropWhile (\<lambda>y. y \<noteq> lst) (dropWhile (\<lambda>y. y \<noteq> first) xs)"
  shows "xs = A @ R @ B" and "first = hd (R @ B @ [m])" and "lst = hd (B @ [m])"
proof -
  define S where "S = dropWhile (\<lambda>y. y \<noteq> first) xs"
  have mS: "m \<notin> set S" using m set_dropWhileD unfolding S_def by fastforce
  have RB: "S = R @ B" unfolding R_def B_def range_of_def S_def by simp
  have "xs = A @ S" unfolding A_def S_def by simp
  then show "xs = A @ R @ B" using RB by simp
  have "first = hd (S @ [m])" unfolding S_def by (rule split_at_pos(2)[OF f m])
  then show "first = hd (R @ B @ [m])" using RB by simp
  have "lst = hd (dropWhile (\<lambda>y. y \<noteq> lst) S @ [m])"
    by (rule split_at_pos(2)[OF l[folded S_def] mS])
  then show "lst = hd (B @ [m])" unfolding B_def S_def by simp
qed

lemma without_range: "distinct (A @ R @ B) \<Longrightarrow> without R (A @ R @ B) = A @ B"
proof -
  assume d: "distinct (A @ R @ B)"
  have "filter (\<lambda>y. y \<notin> set R) A = A" using d by (intro filter_True) auto
  moreover have "filter (\<lambda>y. y \<notin> set R) B = B" using d by (intro filter_True) auto
  moreover have "filter (\<lambda>y. y \<notin> set R) R = []" by (intro filter_False) auto
  ultimately show ?thesis by (simp add: without_def)
qed

lemma consistent_change:
  assumes c: "consistent h nodes el" and S: "S \<subseteq> set nodes"
    and rings: "\<And>n. n \<in> S \<Longrightarrow> ring h' n (el' n)"
    and same: "\<And>n. n \<notin> S \<Longrightarrow> el' n = el n"
    and frame: "\<And>p. p \<notin> (\<Union>n\<in>S. set (n # el n)) \<union> E \<Longrightarrow> h' p = h p"
    and E: "\<And>n. n \<in> set nodes \<Longrightarrow> E \<inter> set (n # el n) = {}"
    and sub: "\<And>n. n \<in> S \<Longrightarrow> set (el' n) \<subseteq> (\<Union>k\<in>S. set (el k)) \<union> E"
    and dj: "\<And>n m. n \<in> S \<Longrightarrow> m \<in> S \<Longrightarrow> n \<noteq> m \<Longrightarrow> set (n # el' n) \<inter> set (m # el' m) = {}"
  shows "consistent h' nodes el'"
proof -
  from c have d: "distinct nodes"
    and r: "\<And>n. n \<in> set nodes \<Longrightarrow> ring h n (el n)"
    and o: "\<And>n m. n \<in> set nodes \<Longrightarrow> m \<in> set nodes \<Longrightarrow> n \<noteq> m \<Longrightarrow>
              set (n # el n) \<inter> set (m # el m) = {}"
    by (auto simp: consistent_def)
  have out: "p \<notin> (\<Union>k\<in>S. set (k # el k)) \<union> E" if "n \<in> set nodes" "n \<notin> S" "p \<in> set (n # el n)" for n p
  proof -
    have "p \<notin> set (k # el k)" if "k \<in> S" for k
    proof -
      from that S \<open>n \<notin> S\<close> have "k \<in> set nodes" "n \<noteq> k" by auto
      from o[OF \<open>n \<in> set nodes\<close> this] \<open>p \<in> set (n # el n)\<close> show ?thesis by blast
    qed
    moreover have "p \<notin> E" using E[OF \<open>n \<in> set nodes\<close>] \<open>p \<in> set (n # el n)\<close> by blast
    ultimately show ?thesis by blast
  qed
  have r': "ring h' n (el' n)" if "n \<in> set nodes" for n
  proof (cases "n \<in> S")
    case True
    then show ?thesis by (rule rings)
  next
    case False
    have "ring h' n (el n)"
      by (rule ring_frame[OF r[OF that]]) (rule frame, rule out[OF that False])
    then show ?thesis using same[OF False] by simp
  qed
  have inS: "set (n # el' n) \<subseteq> (\<Union>k\<in>S. set (k # el k)) \<union> E" if "n \<in> S" for n
    using sub[OF that] that by auto
  have o': "set (n # el' n) \<inter> set (m # el' m) = {}"
    if n: "n \<in> set nodes" and m: "m \<in> set nodes" and ne: "n \<noteq> m" for n m
  proof (cases "n \<in> S")
    case nS: True
    show ?thesis
    proof (cases "m \<in> S")
      case True
      then show ?thesis using dj[OF nS True ne] by simp
    next
      case False
      then have "set (m # el' m) = set (m # el m)" using same by simp
      then show ?thesis using inS[OF nS] out[OF m False] by blast
    qed
  next
    case nS: False
    then have en: "set (n # el' n) = set (n # el n)" using same by simp
    show ?thesis
    proof (cases "m \<in> S")
      case True
      then show ?thesis using en inS[OF True] out[OF n nS] by blast
    next
      case False
      then have "set (m # el' m) = set (m # el m)" using same by simp
      then show ?thesis using en o[OF n m ne] by simp
    qed
  qed
  show ?thesis unfolding consistent_def using d r' o' by blast
qed

lemma consistent_ring: "consistent h nodes el \<Longrightarrow> n \<in> set nodes \<Longrightarrow> ring h n (el n)"
  by (simp add: consistent_def)

lemma consistent_disjoint:
  "consistent h nodes el \<Longrightarrow> n \<in> set nodes \<Longrightarrow> m \<in> set nodes \<Longrightarrow> n \<noteq> m \<Longrightarrow>
   set (n # el n) \<inter> set (m # el m) = {}"
  by (simp add: consistent_def)

lemma step_link:
  assumes c: "consistent h nodes el" and n: "node \<in> set nodes"
    and u: "unlinked nodes el e"
    and r: "ring h' node ys" and ys: "set ys = insert e (set (el node))"
    and frame: "\<forall>p. p \<notin> set (e # node # el node) \<longrightarrow> h' p = h p"
  shows "consistent h' nodes (el(node := ys))"
proof (rule consistent_change[OF c, where S = "{node}" and E = "{e}"])
  show "{node} \<subseteq> set nodes" using n by simp
  show "ring h' k ((el(node := ys)) k)" if "k \<in> {node}" for k using that r by simp
  show "(el(node := ys)) k = el k" if "k \<notin> {node}" for k using that by simp
  show "h' p = h p" if "p \<notin> (\<Union>k\<in>{node}. set (k # el k)) \<union> {e}" for p
    using that frame[rule_format, of p] by simp
  show "{e} \<inter> set (k # el k) = {}" if "k \<in> set nodes" for k
    using that u by (simp add: unlinked_def)
  show "set ((el(node := ys)) k) \<subseteq> (\<Union>j\<in>{node}. set (el j)) \<union> {e}" if "k \<in> {node}" for k
    using that ys by auto
  show "set (k # (el(node := ys)) k) \<inter> set (m # (el(node := ys)) m) = {}"
    if "k \<in> {node}" "m \<in> {node}" "k \<noteq> m" for k m using that by simp
qed

lemma step_unlink:
  assumes c: "consistent h nodes el" and n: "node \<in> set nodes"
    and r: "ring h' node ys" and ys: "set ys \<subseteq> set (el node)"
    and frame: "\<And>p. p \<notin> set (node # el node) \<Longrightarrow> h' p = h p"
  shows "consistent h' nodes (el(node := ys))"
proof (rule consistent_change[OF c, where S = "{node}" and E = "{}"])
  show "{node} \<subseteq> set nodes" using n by simp
  show "ring h' k ((el(node := ys)) k)" if "k \<in> {node}" for k using that r by simp
  show "(el(node := ys)) k = el k" if "k \<notin> {node}" for k using that by simp
  show "h' p = h p" if "p \<notin> (\<Union>k\<in>{node}. set (k # el k)) \<union> {}" for p
    using that frame by simp
  show "set ((el(node := ys)) k) \<subseteq> (\<Union>j\<in>{node}. set (el j)) \<union> {}" if "k \<in> {node}" for k
    using that ys by auto
  show "set (k # (el(node := ys)) k) \<inter> set (m # (el(node := ys)) m) = {}"
    if "k \<in> {node}" "m \<in> {node}" "k \<noteq> m" for k m using that by simp
qed simp

lemma step_push_front:
  assumes c: "consistent h nodes el" and p: "pre Tag nodes (Push_front node x) el"
  shows "\<exists>h'. exec Tag (Push_front node x) h = Some h' \<and>
           consistent h' nodes (effect Tag (Push_front node x) el)"
proof -
  from p have n: "node \<in> set nodes" and u: "unlinked nodes el (x, default_tag)" by simp_all
  from u n have e: "(x, default_tag) \<notin> set (node # el node)" by (simp add: unlinked_def)
  from push_front_ring[OF consistent_ring[OF c n] refl e]
  obtain h' where h': "push_front node x h = Some h'" "ring h' node ((x, default_tag) # el node)"
    "\<forall>p. p \<notin> set ((x, default_tag) # node # el node) \<longrightarrow> h' p = h p" by blast
  have "consistent h' nodes (el(node := (x, default_tag) # el node))"
    by (rule step_link[OF c n u h'(2) _ h'(3)]) simp
  with h'(1) show ?thesis by simp
qed

lemma step_push_back:
  assumes c: "consistent h nodes el" and p: "pre Tag nodes (Push_back node x) el"
  shows "\<exists>h'. exec Tag (Push_back node x) h = Some h' \<and>
           consistent h' nodes (effect Tag (Push_back node x) el)"
proof -
  from p have n: "node \<in> set nodes" and u: "unlinked nodes el (x, Tag)" by simp_all
  from u n have e: "(x, Tag) \<notin> set (node # el node)" by (simp add: unlinked_def)
  from push_back_ring[OF consistent_ring[OF c n] refl e]
  obtain h' where h': "push_back Tag node x h = Some h'" "ring h' node (el node @ [(x, Tag)])"
    "\<forall>p. p \<notin> set ((x, Tag) # node # el node) \<longrightarrow> h' p = h p" by blast
  have "consistent h' nodes (el(node := el node @ [(x, Tag)]))"
    by (rule step_link[OF c n u h'(2) _ h'(3)]) simp
  with h'(1) show ?thesis by simp
qed

lemma step_insert:
  assumes c: "consistent h nodes el" and p: "pre Tag nodes (Insert node pos x) el"
  shows "\<exists>h'. exec Tag (Insert node pos x) h = Some h' \<and>
           consistent h' nodes (effect Tag (Insert node pos x) el)"
proof -
  define C where "C = takeWhile (\<lambda>y. y \<noteq> pos) (el node)"
  define D where "D = dropWhile (\<lambda>y. y \<noteq> pos) (el node)"
  from p have n: "node \<in> set nodes" and u: "unlinked nodes el (x, default_tag)"
    and pos: "pos \<in> set (el node @ [node])" by simp_all
  from u n have e: "(x, default_tag) \<notin> set (node # el node)" by (simp add: unlinked_def)
  note r = consistent_ring[OF c n]
  then have nn: "node \<notin> set (el node)" by (simp add: ring_def)
  have CD: "el node = C @ D" and ph: "pos = hd (D @ [node])"
    unfolding C_def D_def using split_at_pos[OF pos nn] by simp_all
  have r': "ring h node (C @ D)" and e': "(x, default_tag) \<notin> set (node # C @ D)"
    using r e by (simp_all add: CD[symmetric])
  from insert_ring[OF r' refl e' ph]
  obtain h' where h': "insert_list pos x h = Some (h', (x, default_tag))"
    "ring h' node (C @ (x, default_tag) # D)"
    "\<forall>p. p \<notin> set ((x, default_tag) # node # C @ D) \<longrightarrow> h' p = h p" by blast
  have b: "before pos [(x, default_tag)] (el node) = C @ (x, default_tag) # D"
    by (simp add: before_def C_def D_def)
  have "consistent h' nodes (el(node := C @ (x, default_tag) # D))"
  proof (rule step_link[OF c n u h'(2)])
    show "set (C @ (x, default_tag) # D) = insert (x, default_tag) (set (el node))"
      by (subst CD) auto
    show "\<forall>p. p \<notin> set ((x, default_tag) # node # el node) \<longrightarrow> h' p = h p"
      using h'(3) unfolding CD .
  qed
  with h'(1) b show ?thesis by simp
qed

lemma step_erase:
  assumes c: "consistent h nodes el" and p: "pre Tag nodes (Erase node pos) el"
  shows "\<exists>h'. exec Tag (Erase node pos) h = Some h' \<and>
           consistent h' nodes (effect Tag (Erase node pos) el)"
proof -
  from p have n: "node \<in> set nodes" and pos: "pos \<in> set (el node)" by simp_all
  from pos obtain C D where CD: "el node = C @ [pos] @ D" by (metis append_Cons append_Nil split_list)
  note r = consistent_ring[OF c n]
  have r': "ring h node (C @ pos # D)" using r by (simp add: CD)
  then have d: "distinct (C @ [pos] @ D)" by (simp add: ring_def)
  note u = unlink_ring[OF r']
  have run: "erase pos h = Some (unlink pos h, hd (D @ [node]))" by (rule erase_eq_unlink[OF r'])
  have w: "without [pos] (el node) = C @ D" unfolding CD by (rule without_range[OF d])
  have "consistent (unlink pos h) nodes (el(node := C @ D))"
  proof (rule step_unlink[OF c n u(1)])
    show "set (C @ D) \<subseteq> set (el node)" by (subst CD) auto
    show "unlink pos h p = h p" if "p \<notin> set (node # el node)" for p
      by (rule u(3)) (use that CD in auto)
  qed
  with run w show ?thesis by simp
qed

lemma step_splice:
  assumes c: "consistent h nodes el" and p: "pre Tag nodes (Splice node pos other first lst) el"
  shows "\<exists>h'. exec Tag (Splice node pos other first lst) h = Some h' \<and>
           consistent h' nodes (effect Tag (Splice node pos other first lst) el)"
proof (cases "first = lst")
  case True
  then show ?thesis using c by (simp add: splice_list_def)
next
  case ne: False
  define A where "A = takeWhile (\<lambda>y. y \<noteq> first) (el other)"
  define R where "R = range_of first lst (el other)"
  define B where "B = dropWhile (\<lambda>y. y \<noteq> lst) (dropWhile (\<lambda>y. y \<noteq> first) (el other))"
  from p have n: "node \<in> set nodes" and o: "other \<in> set nodes"
    and pos: "pos \<in> set (el node @ [node])"
    and f: "first \<in> set (el other @ [other])"
    and l: "lst \<in> set (dropWhile (\<lambda>y. y \<noteq> first) (el other) @ [other])" by simp_all
  note ro = consistent_ring[OF c o]
  then have mo: "other \<notin> set (el other)" by (simp add: ring_def)
  note rs = range_split[OF f l mo, folded A_def R_def B_def]
  have Rne: "R \<noteq> []" using ne rs(2,3) by auto
  have fh: "first = hd R" using rs(2) Rne by simp
  have src: "ring h other (A @ R @ B)" using ro by (simp add: rs(1)[symmetric])
  then have d: "distinct (other # A @ R @ B)" by (simp add: ring_def)
  have w: "without R (el other) = A @ B"
    using without_range[of A R B] d by (simp add: rs(1)[symmetric])
  have Pin: "last (other # A) \<in> set (other # A)" by (rule last_in_set) simp
  have lin: "lst \<in> set (B @ [other])" unfolding rs(3) by (rule pos_in)
  show ?thesis
  proof (cases "pos \<in> set R")
    case True
    from splice_bad[OF src Rne fh rs(3) True, of other]
    obtain h' where h': "splice_list pos other first lst h = Some h'" "ring h' other (A @ B)"
      "\<And>p. p \<notin> set R \<Longrightarrow> h' p = cut_heap (last (other # A)) lst h p" by blast
    have "consistent h' nodes (el(other := A @ B))"
    proof (rule step_unlink[OF c o h'(2)])
      show "set (A @ B) \<subseteq> set (el other)" by (subst rs(1)) auto
      show "h' q = h q" if "q \<notin> set (other # el other)" for q
      proof -
        from that have q: "q \<notin> set (other # A @ R @ B)" by (simp add: rs(1)[symmetric])
        with Pin lin have "q \<noteq> last (other # A)" "q \<noteq> lst" by auto
        then have "cut_heap (last (other # A)) lst h q = h q" by (rule cut_heap_other)
        moreover have "h' q = cut_heap (last (other # A)) lst h q" by (rule h'(3)) (use q in auto)
        ultimately show ?thesis by simp
      qed
    qed
    then show ?thesis using h'(1) ne True w by (simp add: R_def[symmetric])
  next
    case notin: False
    show ?thesis
    proof (cases "node = other")
      case same: True
      define C where "C = takeWhile (\<lambda>y. y \<noteq> pos) (A @ B)"
      define D where "D = dropWhile (\<lambda>y. y \<noteq> pos) (A @ B)"
      have "pos \<in> set ((A @ R @ B) @ [other])" using pos same by (simp add: rs(1)[symmetric])
      then have pin: "pos \<in> set ((A @ B) @ [other])" using notin by auto
      have mAB: "other \<notin> set (A @ B)" using d by auto
      have CD: "A @ B = C @ D" and ph: "pos = hd (D @ [other])"
        unfolding C_def D_def using split_at_pos[OF pin mAB] by simp_all
      have dst: "(other = other \<and> C @ D = A @ B) \<or>
                 (ring h other (C @ D) \<and> set (other # A @ R @ B) \<inter> set (other # C @ D) = {})"
        using CD by simp
      from splice_general[OF src rs(2) rs(3) dst ph, of other]
      obtain h' where h': "splice_list pos other first lst h = Some h'" "ring h' other (C @ R @ D)"
        "\<And>p. p \<notin> set (other # A @ R @ B) \<union> set (other # C @ D) \<Longrightarrow> h' p = h p" by blast
      have sCD: "set (C @ D) = set (A @ B)" by (simp only: CD)
      have "consistent h' nodes (el(other := C @ R @ D))"
      proof (rule step_unlink[OF c o h'(2)])
        show "set (C @ R @ D) \<subseteq> set (el other)" using sCD by (subst rs(1)) auto
        show "h' q = h q" if "q \<notin> set (other # el other)" for q
        proof (rule h'(3))
          from that have "q \<notin> set (other # A @ R @ B)" by (simp add: rs(1)[symmetric])
          then show "q \<notin> set (other # A @ R @ B) \<union> set (other # C @ D)" using sCD by auto
        qed
      qed
      moreover have "before pos R (A @ B) = C @ R @ D" by (simp add: before_def C_def D_def)
      ultimately show ?thesis
        using h'(1) ne notin w same by (simp add: R_def[symmetric])
    next
      case diff: False
      define C where "C = takeWhile (\<lambda>y. y \<noteq> pos) (el node)"
      define D where "D = dropWhile (\<lambda>y. y \<noteq> pos) (el node)"
      note rn = consistent_ring[OF c n]
      then have nn: "node \<notin> set (el node)" by (simp add: ring_def)
      have CD: "el node = C @ D" and ph: "pos = hd (D @ [node])"
        unfolding C_def D_def using split_at_pos[OF pos nn] by simp_all
      have rn': "ring h node (C @ D)" using rn by (simp add: CD[symmetric])
      have dj: "set (other # A @ R @ B) \<inter> set (node # C @ D) = {}"
        using consistent_disjoint[OF c o n] diff by (simp add: rs(1)[symmetric] CD[symmetric])
      have dst: "(node = other \<and> C @ D = A @ B) \<or>
                 (ring h node (C @ D) \<and> set (other # A @ R @ B) \<inter> set (node # C @ D) = {})"
        using rn' dj by blast
      from splice_general[OF src rs(2) rs(3) dst ph, of other] diff
      obtain h' where h': "splice_list pos other first lst h = Some h'" "ring h' node (C @ R @ D)"
        "ring h' other (A @ B)"
        "\<And>p. p \<notin> set (other # A @ R @ B) \<union> set (node # C @ D) \<Longrightarrow> h' p = h p" by blast
      define el' where "el' = (el(other := A @ B))(node := C @ R @ D)"
      have el'n: "el' node = C @ R @ D" and el'o: "el' other = A @ B"
        using diff by (simp_all add: el'_def)
      have "consistent h' nodes el'"
      proof (rule consistent_change[OF c, where S = "{node, other}" and E = "{}"])
        show "{node, other} \<subseteq> set nodes" using n o by simp
        show "ring h' k (el' k)" if "k \<in> {node, other}" for k
          using that h'(2,3) el'n el'o by auto
        show "el' k = el k" if "k \<notin> {node, other}" for k using that by (simp add: el'_def)
        show "h' q = h q" if "q \<notin> (\<Union>k\<in>{node, other}. set (k # el k)) \<union> {}" for q
        proof (rule h'(4))
          from that show "q \<notin> set (other # A @ R @ B) \<union> set (node # C @ D)"
            by (simp add: rs(1)[symmetric] CD[symmetric])
        qed
        show "set (el' k) \<subseteq> (\<Union>j\<in>{node, other}. set (el j)) \<union> {}" if "k \<in> {node, other}" for k
        proof -
          have "set (el node) = set C \<union> set D" by (subst CD) simp
          moreover have "set (el other) = set A \<union> set R \<union> set B" by (subst rs(1)) auto
          ultimately show ?thesis using that el'n el'o by auto
        qed
        show "set (k # el' k) \<inter> set (m # el' m) = {}"
          if "k \<in> {node, other}" "m \<in> {node, other}" "k \<noteq> m" for k m
        proof -
          have *: "set (node # C @ R @ D) \<inter> set (other # A @ B) = {}" using dj d by auto
          from that consider "k = node \<and> m = other" | "k = other \<and> m = node" by auto
          then show ?thesis
          proof cases
            case 1
            then have "set (k # el' k) = set (node # C @ R @ D)"
              "set (m # el' m) = set (other # A @ B)" using el'n el'o by simp_all
            with * show ?thesis by blast
          next
            case 2
            then have "set (m # el' m) = set (node # C @ R @ D)"
              "set (k # el' k) = set (other # A @ B)" using el'n el'o by simp_all
            with * show ?thesis by blast
          qed
        qed
      qed simp
      moreover have "before pos R (el node) = C @ R @ D" by (simp add: before_def C_def D_def)
      ultimately show ?thesis
        using h'(1) ne notin w diff by (simp add: R_def[symmetric] el'_def)
    qed
  qed
qed

lemma step_consistent:
  assumes "consistent h nodes el" and "pre Tag nodes c el"
  shows "\<exists>h'. exec Tag c h = Some h' \<and> consistent h' nodes (effect Tag c el)"
proof (cases c)
  case (Push_front n x)
  then show ?thesis using step_push_front assms by blast
next
  case (Push_back n x)
  then show ?thesis using step_push_back assms by blast
next
  case (Insert n pos x)
  then show ?thesis using step_insert assms by blast
next
  case (Erase n pos)
  then show ?thesis using step_erase assms by blast
next
  case (Splice n pos other first lst)
  then show ?thesis using step_splice assms by blast
qed

lemma run_consistent:
  "consistent h nodes el \<Longrightarrow> pre_all Tag nodes cs el \<Longrightarrow>
   \<exists>h'. run Tag cs h = Some h' \<and> consistent h' nodes (effect_all Tag cs el)"
proof (induction cs arbitrary: h el)
  case Nil
  then show ?case by simp
next
  case (Cons c cs)
  from Cons.prems have p: "pre Tag nodes c el" and ps: "pre_all Tag nodes cs (effect Tag c el)"
    by simp_all
  from step_consistent[OF Cons.prems(1) p]
  obtain h1 where h1: "exec Tag c h = Some h1" "consistent h1 nodes (effect Tag c el)" by blast
  from Cons.IH[OF h1(2) ps] h1(1) show ?case by simp
qed

lemma fold_list_ctor_other: "p \<notin> set ns \<Longrightarrow> fold list_ctor ns h p = h p"
  by (induction ns arbitrary: h) (auto simp: list_ctor_frame)

lemma fold_list_ctor_ring: "distinct ns \<Longrightarrow> n \<in> set ns \<Longrightarrow> ring (fold list_ctor ns h) n []"
proof (induction ns arbitrary: h)
  case Nil
  then show ?case by simp
next
  case (Cons a ns)
  show ?case
  proof (cases "n = a")
    case True
    have "ring (list_ctor a h) a []" by (rule list_ctor_ring)
    then have "ring (fold list_ctor ns (list_ctor a h)) a []"
    proof (rule ring_frame)
      fix p assume "p \<in> set (a # [])"
      then have "p \<notin> set ns" using Cons.prems(1) by simp
      then show "fold list_ctor ns (list_ctor a h) p = list_ctor a h p"
        by (rule fold_list_ctor_other)
    qed
    then show ?thesis using True by simp
  next
    case False
    then show ?thesis using Cons by simp
  qed
qed

lemma initial_consistent: "distinct nodes \<Longrightarrow> consistent (fold list_ctor nodes h) nodes (\<lambda>_. [])"
  by (simp add: consistent_def fold_list_ctor_ring)

lemma forward_from_chain:
  "chain h (ys @ [n]) \<Longrightarrow> n \<notin> set ys \<Longrightarrow> length ys < k \<Longrightarrow>
   forward_from k h n (Some (hd (ys @ [n]))) = Some ys"
proof (induction ys arbitrary: k)
  case Nil
  then obtain k' where "k = Suc k'" by (cases k) auto
  then show ?case by simp
next
  case (Cons y ys)
  from Cons.prems(3) obtain k' where k: "k = Suc k'" "length ys < k'" by (cases k) auto
  from Cons.prems(1) have c: "chain h (ys @ [n])" and nx: "next (h y) = Some (hd (ys @ [n]))"
    by (simp_all add: chain_Cons)
  from Cons.prems(2) have ne: "y \<noteq> n" "n \<notin> set ys" by auto
  from Cons.IH[OF c ne(2) k(2)] nx ne(1) show ?case by (simp add: k(1) iter_inc_def)
qed

lemma forward_ring:
  assumes "ring h n xs" "length xs < fuel"
  shows "forward fuel n h = Some xs"
proof -
  from assms(1) have c: "chain h (xs @ [n])" and nn: "n \<notin> set xs"
    by (simp_all add: ring_def chain_Cons)
  from forward_from_chain[OF c nn assms(2)] ring_first_next(1)[OF assms(1)]
  show ?thesis by (simp add: forward_def begin_list_def end_list_def)
qed

lemma backward_from_ring:
  "ring h n (as @ bs) \<Longrightarrow> length as < k \<Longrightarrow>
   backward_from k h (Some (hd ((as @ bs) @ [n]))) (hd (bs @ [n])) = Some (rev as)"
proof (induction as arbitrary: bs k rule: rev_induct)
  case Nil
  then obtain k' where "k = Suc k'" by (cases k) auto
  then show ?case by simp
next
  case (snoc a as)
  from snoc.prems(2) obtain k' where k: "k = Suc k'" "length as < k'" by (cases k) auto
  from snoc.prems(1) have d: "distinct (n # (as @ [a]) @ bs)" by (simp add: ring_def)
  have r': "ring h n (as @ (a # bs))" using snoc.prems(1) by simp
  have pv: "prev (h (hd (bs @ [n]))) = Some a"
    using ring_split(4)[OF snoc.prems(1)] by simp
  have bg: "hd (as @ a # bs @ [n]) = hd (as @ [a])" by (cases as) simp_all
  have "hd (as @ [a]) \<in> set (as @ [a])" by (rule hd_in_set) simp
  moreover have "hd (bs @ [n]) \<in> set (bs @ [n])" by (rule pos_in)
  ultimately have ne: "hd (bs @ [n]) \<noteq> hd (as @ [a])" using d by auto
  from snoc.IH[OF r' k(2)] have "backward_from k' h (Some (hd (as @ [a]))) a = Some (rev as)"
    by (simp add: bg)
  then show ?case using pv ne by (simp add: k(1) bg iter_dec_def)
qed

lemma backward_ring:
  assumes "ring h n xs" "length xs < fuel"
  shows "backward fuel n h = Some (rev xs)"
proof -
  have "ring h n (xs @ [])" using assms(1) by simp
  from backward_from_ring[OF this assms(2)] ring_first_next(1)[OF assms(1)]
  show ?thesis by (simp add: backward_def begin_list_def end_list_def)
qed

lemma ring_neighbours_ok:
  assumes "ring h n xs" "x \<in> set (n # xs)"
  shows "neighbours_ok h x"
  using ring_next_prev[OF assms] ring_prev_next[OF assms]
  by (auto simp: neighbours_ok_def)


section \<open>Independence of the tags: the operations one by one\<close>











section \<open>The claims\<close>

text \<open>
  Claim C1. Start from any number of distinct lists, all empty, and apply any sequence of
  \<open>push_front\<close>, \<open>push_back\<close>, \<open>insert\<close>, \<open>erase\<close> and \<open>splice\<close> calls, each under its
  stated precondition. Every call succeeds, and afterwards every list is a ring: the
  forward traversal from \<open>begin()\<close> to \<open>end()\<close> visits its elements, the reverse traversal
  visits the same elements in reversed order, and the neighbours of the sentinel and of
  every element point back at it.
\<close>

theorem ring_invariant:
  assumes "distinct nodes" and "pre_all Tag nodes cs (\<lambda>_. [])"
  shows "\<exists>h'. run Tag cs (fold list_ctor nodes h) = Some h' \<and>
           (\<forall>node \<in> set nodes.
              ring h' node (effect_all Tag cs (\<lambda>_. []) node) \<and>
              (\<forall>fuel. length (effect_all Tag cs (\<lambda>_. []) node) < fuel \<longrightarrow>
                 forward fuel node h' = Some (effect_all Tag cs (\<lambda>_. []) node) \<and>
                 backward fuel node h' = Some (rev (effect_all Tag cs (\<lambda>_. []) node))) \<and>
              (\<forall>x \<in> set (node # effect_all Tag cs (\<lambda>_. []) node). neighbours_ok h' x))"
proof -
  from run_consistent[OF initial_consistent[OF assms(1)] assms(2)]
  obtain h' where h': "run Tag cs (fold list_ctor nodes h) = Some h'"
    "consistent h' nodes (effect_all Tag cs (\<lambda>_. []))" by blast
  have "ring h' node (effect_all Tag cs (\<lambda>_. []) node)" if "node \<in> set nodes" for node
    by (rule consistent_ring[OF h'(2) that])
  then show ?thesis
    using h'(1) forward_ring backward_ring ring_neighbours_ok by blast
qed

theorem ring_invariant_witness:
  "distinct [ex_n, ex_m] \<and> pre_all default_tag [ex_n, ex_m] ex_ops (\<lambda>_. []) \<and>
   (\<exists>h'. run default_tag ex_ops (fold list_ctor [ex_n, ex_m] (\<lambda>_. \<lparr>prev = None, next = None\<rparr>)) = Some h' \<and>
      ring h' ex_n [ex_a] \<and> ring h' ex_m [ex_x, ex_c, (4, default_tag)] \<and>
      forward 4 ex_m h' = Some [ex_x, ex_c, (4, default_tag)] \<and>
      backward 4 ex_m h' = Some [(4, default_tag), ex_c, ex_x] \<and>
      neighbours_ok h' ex_c)"
proof -
  have d: "distinct [ex_n, ex_m]" by (simp add: ex_defs)
  have p: "pre_all default_tag [ex_n, ex_m] ex_ops (\<lambda>_. [])"
    by (simp add: ex_ops_def unlinked_def before_def range_of_def without_def ex_defs)
  have e: "effect_all default_tag ex_ops (\<lambda>_. []) ex_n = [ex_a]"
    "effect_all default_tag ex_ops (\<lambda>_. []) ex_m = [ex_x, ex_c, (4, default_tag)]"
    by (simp_all add: ex_ops_def before_def range_of_def without_def ex_defs)
  from ring_invariant[OF d p, of "\<lambda>_. \<lparr>prev = None, next = None\<rparr>"]
  obtain h' where h': "run default_tag ex_ops (fold list_ctor [ex_n, ex_m] (\<lambda>_. \<lparr>prev = None, next = None\<rparr>)) = Some h'"
    "\<forall>node \<in> set [ex_n, ex_m].
       ring h' node (effect_all default_tag ex_ops (\<lambda>_. []) node) \<and>
       (\<forall>fuel. length (effect_all default_tag ex_ops (\<lambda>_. []) node) < fuel \<longrightarrow>
          forward fuel node h' = Some (effect_all default_tag ex_ops (\<lambda>_. []) node) \<and>
          backward fuel node h' = Some (rev (effect_all default_tag ex_ops (\<lambda>_. []) node))) \<and>
       (\<forall>x \<in> set (node # effect_all default_tag ex_ops (\<lambda>_. []) node). neighbours_ok h' x)"
    by blast
  from h'(2) e have "ring h' ex_n [ex_a]" "ring h' ex_m [ex_x, ex_c, (4, default_tag)]"
    "forward 4 ex_m h' = Some [ex_x, ex_c, (4, default_tag)]"
    "backward 4 ex_m h' = Some [(4, default_tag), ex_c, ex_x]"
    "neighbours_ok h' ex_c"
    by simp_all
  with d p h'(1) show ?thesis by blast
qed

text \<open>
  Claim C2. \<open>push_back(x)\<close> followed by \<open>pop_back()\<close> succeeds and leaves the list the ring
  it was, with the same \<open>empty()\<close>, \<open>front()\<close> and \<open>back()\<close>; but \<open>pop_back\<close> does not touch
  the link of \<open>x\<close>, which keeps the two pointers \<open>push_back\<close> stored in it: \<open>prev\<close> at the
  last element (the sentinel in an empty list) and \<open>next\<close> at the sentinel. The link of
  \<open>x\<close> is not unset.
\<close>

theorem push_back_pop_back_stale:
  assumes "ring h node xs" and "(x, Tag) \<notin> set (node # xs)"
  shows "\<exists>h1 h2. push_back Tag node x h = Some h1 \<and> pop_back node h1 = Some h2 \<and>
           ring h2 node xs \<and>
           empty_list node h2 = empty_list node h \<and>
           front_list node h2 = front_list node h \<and>
           back_list node h2 = back_list node h \<and>
           h2 (x, Tag) = \<lparr>prev = Some (last (node # xs)), next = Some node\<rparr>"
proof -
  from push_back_ring[OF assms(1) refl assms(2)]
  obtain h1 where h1: "push_back Tag node x h = Some h1" "ring h1 node (xs @ [(x, Tag)])"
    by blast
  from pop_back_ring[OF h1(2)]
  obtain h2 where h2: "pop_back node h1 = Some h2" "ring h2 node xs" "h2 (x, Tag) = h1 (x, Tag)"
    by blast
  have "prev (h1 (x, Tag)) = Some (last (node # xs))"
    using ring_split(4)[of h1 node xs "[(x, Tag)]"] h1(2) by simp
  moreover have "next (h1 (x, Tag)) = Some node"
    using ring_last_prev(2)[OF h1(2)] by simp
  ultimately have "h1 (x, Tag) = \<lparr>prev = Some (last (node # xs)), next = Some node\<rparr>"
    by simp
  with h1(1) h2 ring_same_ends[OF assms(1) h2(2)] show ?thesis by simp
qed

theorem push_back_pop_back_stale_witness:
  "ring (list_ctor ex_n (\<lambda>_. \<lparr>prev = None, next = None\<rparr>)) ex_n [] \<and>
   ex_a \<notin> set (ex_n # []) \<and>
   (\<exists>h1 h2. push_back default_tag ex_n 1 (list_ctor ex_n (\<lambda>_. \<lparr>prev = None, next = None\<rparr>)) = Some h1 \<and>
      pop_back ex_n h1 = Some h2 \<and>
      h2 ex_a = \<lparr>prev = Some ex_n, next = Some ex_n\<rparr> \<and>
      h2 ex_a \<noteq> \<lparr>prev = None, next = None\<rparr>)"
proof -
  have 1: "ex_a \<notin> set (ex_n # [])" by (simp add: ex_defs)
  have 2: "ex_a = (1, default_tag)" by (simp add: ex_defs)
  from push_back_pop_back_stale[OF list_ctor_ring 1[unfolded 2], of "\<lambda>_. \<lparr>prev = None, next = None\<rparr>"]
    list_ctor_ring 1
  show ?thesis unfolding 2 by auto
qed

text \<open>
  Claim C3. For two distinct lists \<open>L\<close> and \<open>M\<close>, splicing the range \<open>[a, b)\<close> of \<open>M\<close>, the
  \<open>k\<close> elements \<open>R\<close>, into \<open>L\<close> at position \<open>p\<close> succeeds; afterwards \<open>M\<close> is the ring of
  its other elements in their old order, \<open>L\<close> is the ring of its old elements with \<open>R\<close>, in
  its old order, immediately before \<open>p\<close>, and the sizes have changed by \<open>k\<close>.
\<close>

theorem splice_between_lists:
  assumes "ring h M (A @ R @ B)" and "ring h L (C @ D)"
    and "set (M # A @ R @ B) \<inter> set (L # C @ D) = {}"
    and "a = hd (R @ B @ [end_list M])" and "b = hd (B @ [end_list M])"
    and "p = hd (D @ [end_list L])"
  shows "\<exists>h'. splice_list p M a b h = Some h' \<and>
           ring h' M (A @ B) \<and> ring h' L (C @ R @ D) \<and>
           length (C @ R @ D) = length (C @ D) + length R \<and>
           length (A @ B) = length (A @ R @ B) - length R"
proof -
  have LM: "L \<noteq> M" using assms(3) by auto
  have dst: "(L = M \<and> C @ D = A @ B) \<or>
             (ring h L (C @ D) \<and> set (M # A @ R @ B) \<inter> set (L # C @ D) = {})"
    using assms(2,3) by blast
  from splice_general[where other = M, OF assms(1) assms(4)[unfolded end_list_def]
      assms(5)[unfolded end_list_def] dst assms(6)[unfolded end_list_def]]
  obtain h' where "splice_list p M a b h = Some h'" "ring h' L (C @ R @ D)"
    "L \<noteq> M \<longrightarrow> ring h' M (A @ B)" by blast
  with LM show ?thesis by simp

qed

theorem splice_between_lists_witness:
  "ring ex_heap ex_n ([ex_a] @ [ex_b, ex_c] @ []) \<and> ring ex_heap ex_m ([ex_x, ex_y] @ []) \<and>
   set (ex_n # [ex_a] @ [ex_b, ex_c] @ []) \<inter> set (ex_m # [ex_x, ex_y] @ []) = {} \<and>
   (\<exists>h'. splice_list ex_m ex_n ex_b ex_n ex_heap = Some h' \<and>
      ring h' ex_n [ex_a] \<and> ring h' ex_m [ex_x, ex_y, ex_b, ex_c])"
proof -
  have 1: "set (ex_n # [ex_a] @ [ex_b, ex_c] @ []) \<inter> set (ex_m # [ex_x, ex_y] @ []) = {}"
    by (simp add: ex_defs)
  have 2: "ring ex_heap ex_n ([ex_a] @ [ex_b, ex_c] @ [])" "ring ex_heap ex_m ([ex_x, ex_y] @ [])"
    using ex_ring_n ex_ring_m by simp_all
  from splice_between_lists[OF 2 1, of ex_b ex_n ex_m] 1 2
  show ?thesis by (simp add: end_list_def)
qed

text \<open>
  Claim C4, as stated, fails: the position may not lie inside the range, and a call with
  \<open>first \<noteq> last\<close> can leave everything as it was. In the list \<open>[a, b, c]\<close>,
  \<open>splice(b, list, a, c)\<close> moves the range \<open>[a, b]\<close> before \<open>b\<close>, which lies in it: the
  list is left holding \<open>c\<close> alone. \<open>splice(c, list, a, c)\<close> has \<open>first \<noteq> last\<close> and
  changes nothing.
\<close>

theorem splice_any_position_counterexample:
  "ring ex_heap ex_n [ex_a, ex_b, ex_c] \<and>
   splice_list ex_b ex_n ex_a ex_c ex_heap \<noteq> None \<and>
   ring (the (splice_list ex_b ex_n ex_a ex_c ex_heap)) ex_n [ex_c] \<and>
   \<not> ring (the (splice_list ex_b ex_n ex_a ex_c ex_heap)) ex_n [ex_a, ex_b, ex_c] \<and>
   ex_a \<noteq> ex_c \<and>
   splice_list ex_c ex_n ex_a ex_c ex_heap = Some ex_heap"
proof -
  have r: "ring ex_heap ex_n ([] @ [ex_a, ex_b] @ [ex_c])" using ex_ring_n by simp
  have f: "ex_a = hd [ex_a, ex_b]" "ex_c = hd ([ex_c] @ [ex_n])" "ex_b \<in> set [ex_a, ex_b]"
    by simp_all
  from splice_bad[OF r _ f, of ex_n]
  obtain h' where h': "splice_list ex_b ex_n ex_a ex_c ex_heap = Some h'" "ring h' ex_n [ex_c]"
    by auto
  have ac: "ex_a \<noteq> ex_c" by (simp add: ex_defs)
  have "\<not> ring h' ex_n [ex_a, ex_b, ex_c]"
  proof
    assume "ring h' ex_n [ex_a, ex_b, ex_c]"
    from ring_first_next(1)[OF this] ring_first_next(1)[OF h'(2)] ac show False by simp
  qed
  moreover have "splice_list ex_c ex_n ex_a ex_c ex_heap = Some ex_heap"
    by (rule splice_at_last[OF r]) simp_all
  ultimately show ?thesis using h' ex_ring_n ac by simp
qed

text \<open>
  Claim C4, amended. When \<open>[first, last)\<close> is a contiguous range \<open>R\<close> of the list \<open>M\<close>, and
  \<open>pos\<close> is a position of the destination \<open>L\<close> that does not lie in the range (\<open>L\<close> is
  another list, or \<open>L\<close> is \<open>M\<close> and \<open>pos\<close> is a position of what remains of \<open>M\<close> without
  the range, \<open>last\<close> included), the call succeeds, \<open>L\<close> is a ring with \<open>R\<close>, in its old
  order, immediately before \<open>pos\<close>, \<open>M\<close> is a ring of its other elements, and the memory
  is unchanged exactly when \<open>first = last\<close> or \<open>pos = last\<close>.
\<close>

theorem splice_outside_range:
  assumes src: "ring h M (A @ R @ B)"
    and first: "first = hd (R @ B @ [end_list M])" and lst: "lst = hd (B @ [end_list M])"
    and dst: "(L = M \<and> C @ D = A @ B) \<or>
              (ring h L (C @ D) \<and> set (M # A @ R @ B) \<inter> set (L # C @ D) = {})"
    and pos: "pos = hd (D @ [end_list L])"
  shows "\<exists>h'. splice_list pos M first lst h = Some h' \<and>
           ring h' L (C @ R @ D) \<and>
           (L \<noteq> M \<longrightarrow> ring h' M (A @ B)) \<and>
           ((h' = h) = (first = lst \<or> pos = lst))"
proof -
  note f = first[unfolded end_list_def] and l = lst[unfolded end_list_def]
    and p = pos[unfolded end_list_def]
  from splice_general[where other = M, OF src f l dst p]
  obtain h' where h': "splice_list pos M first lst h = Some h'" "ring h' L (C @ R @ D)"
    "L \<noteq> M \<longrightarrow> ring h' M (A @ B)" by blast
  from src have d: "distinct (M # A @ R @ B)" by (simp add: ring_def)
  have posin: "pos \<in> set (D @ [L])" unfolding p by (rule pos_in)
  have lin: "lst \<in> set (B @ [M])" unfolding l by (rule pos_in)
  have "h' = h" if "first = lst \<or> pos = lst"
  proof -
    from that have "splice_list pos M first lst h = Some h"
    proof
      assume "first = lst"
      then show ?thesis by (simp add: splice_list_def)
    next
      assume "pos = lst"
      then show ?thesis using splice_at_last[OF src f l] by simp
    qed
    with h'(1) show ?thesis by simp
  qed
  moreover have "pos = lst" if eq: "h' = h" and ne: "first \<noteq> lst"
  proof -
    have R: "R \<noteq> []" using ne f l by auto
    have "prev (h' pos) = Some (last R)"
      using ring_split(4)[of h' L "C @ R" D] h'(2) R p by simp
    then have pp: "prev (h pos) = Some (last R)" using eq by simp
    have nl: "next (h (last R)) = Some lst" using ring_split3(6)[OF src R] l by simp
    have "\<exists>q. prev (h pos) = Some q \<and> next (h q) = Some pos"
    proof -
      from dst show ?thesis
      proof
        assume a: "L = M \<and> C @ D = A @ B"
        then have LM: "L = M" and CD: "C @ D = A @ B" by blast+
        have "set (C @ D) = set (A @ B)" by (simp only: CD)
        then have "set D \<subseteq> set (A @ B)" by auto
        with posin LM have "pos \<in> set (M # A @ R @ B)" by auto
        from ring_prev_next[OF src this] show ?thesis by blast
      next
        assume "ring h L (C @ D) \<and> set (M # A @ R @ B) \<inter> set (L # C @ D) = {}"
        then have rL: "ring h L (C @ D)" by blast
        have "pos \<in> set (L # C @ D)" using posin by auto
        from ring_prev_next[OF rL this] show ?thesis by blast
      qed
    qed
    with pp nl show ?thesis by auto
  qed
  ultimately have "(h' = h) = (first = lst \<or> pos = lst)" by blast
  with h' show ?thesis by blast
qed

theorem splice_outside_range_witness:
  "ring ex_heap ex_n ([] @ [ex_a] @ [ex_b, ex_c]) \<and>
   [ex_b] @ [ex_c] = [] @ [ex_b, ex_c] \<and>
   (\<exists>h'. splice_list ex_c ex_n ex_a ex_b ex_heap = Some h' \<and>
      ring h' ex_n [ex_b, ex_a, ex_c] \<and> h' \<noteq> ex_heap)"
proof -
  have r: "ring ex_heap ex_n ([] @ [ex_a] @ [ex_b, ex_c])" using ex_ring_n by simp
  have dst: "(ex_n = ex_n \<and> [ex_b] @ [ex_c] = [] @ [ex_b, ex_c]) \<or>
      (ring ex_heap ex_n ([ex_b] @ [ex_c]) \<and>
       set (ex_n # [] @ [ex_a] @ [ex_b, ex_c]) \<inter> set (ex_n # [ex_b] @ [ex_c]) = {})"
    by simp
  have ne: "ex_a \<noteq> ex_b" "ex_c \<noteq> ex_b" by (simp_all add: ex_defs)
  from splice_outside_range[OF r _ _ dst, of ex_a ex_b ex_c] ne r
  show ?thesis by (simp add: end_list_def)
qed

text \<open>
  Claim C5, as stated, fails in its last part: an element that is in no list can still
  hold pointers into one. \<open>clear()\<close> empties a list by writing the sentinel alone and
  leaves the pointers of the former elements as they were. On an empty list,
  \<open>push_back(a)\<close>, \<open>clear()\<close>, \<open>push_back(b)\<close>: \<open>a\<close> is in no list, both its pointers
  still lead to the sentinel, and destroying \<open>a\<close> writes through them, which leaves the
  list that held \<open>b\<close> empty.
\<close>

theorem dtor_not_linked_counterexample:
  "push_back default_tag ex_n 1 (list_ctor ex_n (\<lambda>_. \<lparr>prev = None, next = None\<rparr>)) \<bind>
     (\<lambda>h. push_back default_tag ex_n 2 (clear ex_n h)) \<noteq> None \<and>
   ring (the (push_back default_tag ex_n 1 (list_ctor ex_n (\<lambda>_. \<lparr>prev = None, next = None\<rparr>)) \<bind>
     (\<lambda>h. push_back default_tag ex_n 2 (clear ex_n h)))) ex_n [ex_b] \<and>
   ex_a \<notin> set (ex_n # [ex_b]) \<and>
   the (push_back default_tag ex_n 1 (list_ctor ex_n (\<lambda>_. \<lparr>prev = None, next = None\<rparr>)) \<bind>
     (\<lambda>h. push_back default_tag ex_n 2 (clear ex_n h))) ex_a =
     \<lparr>prev = Some ex_n, next = Some ex_n\<rparr> \<and>
   ring (list_element_dtor ex_a
     (the (push_back default_tag ex_n 1 (list_ctor ex_n (\<lambda>_. \<lparr>prev = None, next = None\<rparr>)) \<bind>
       (\<lambda>h. push_back default_tag ex_n 2 (clear ex_n h))))) ex_n [] \<and>
   \<not> ring (list_element_dtor ex_a
     (the (push_back default_tag ex_n 1 (list_ctor ex_n (\<lambda>_. \<lparr>prev = None, next = None\<rparr>)) \<bind>
       (\<lambda>h. push_back default_tag ex_n 2 (clear ex_n h))))) ex_n [ex_b]"
  by (simp add: ring_def list_ctor_def list_element_ctor_def push_back_def clear_def
      list_element_dtor_def unlink_def set_prev_def set_next_def ex_defs)

text \<open>
  Claim C5, amended. Destroying an element \<open>x\<close> that is linked in a list runs \<open>unlink\<close>:
  the list is then a ring of the same elements without \<open>x\<close>, in the same order, no link of
  the list points at \<open>x\<close>, \<open>x\<close> itself is unset, and no link outside the list is changed.
  \<open>unlink\<close> is idempotent, and unlinking or destroying an element whose link is unset
  (both pointers null) changes nothing in the memory.
\<close>

theorem dtor_correct:
  "(ring h node (C @ x # D) \<longrightarrow>
      ring (list_element_dtor x h) node (C @ D) \<and>
      (\<forall>p \<in> set (node # C @ D).
          prev (list_element_dtor x h p) \<noteq> Some x \<and> next (list_element_dtor x h p) \<noteq> Some x) \<and>
      list_element_dtor x h x = \<lparr>prev = None, next = None\<rparr> \<and>
      (\<forall>p. p \<notin> set (node # C @ D) \<longrightarrow> p \<noteq> x \<longrightarrow> list_element_dtor x h p = h p)) \<and>
   unlink x (unlink x h) = unlink x h \<and>
   (prev (h x) = None \<and> next (h x) = None \<longrightarrow> unlink x h = h \<and> list_element_dtor x h = h)"
proof -
  have 1: "ring (unlink x h) node (C @ D) \<and>
      (\<forall>p \<in> set (node # C @ D). prev (unlink x h p) \<noteq> Some x \<and> next (unlink x h p) \<noteq> Some x) \<and>
      unlink x h x = \<lparr>prev = None, next = None\<rparr> \<and>
      (\<forall>p. p \<notin> set (node # C @ D) \<longrightarrow> p \<noteq> x \<longrightarrow> unlink x h p = h p)"
    if r: "ring h node (C @ x # D)"
  proof -
    note u = unlink_ring[OF r]
    from r have nx: "x \<notin> set (node # C @ D)" by (auto simp: ring_def)
    have "prev (unlink x h p) \<noteq> Some x \<and> next (unlink x h p) \<noteq> Some x"
      if "p \<in> set (node # C @ D)" for p
      using ring_member_ptrs[OF u(1) that] nx by auto
    then show ?thesis using u by blast
  qed
  have 2: "unlink x h = h" if "prev (h x) = None \<and> next (h x) = None"
    using that by (simp add: unlink_unset)
  show ?thesis
    unfolding list_element_dtor_def using 1 2 unlink_idem by blast
qed

theorem dtor_correct_witness:
  "ring ex_heap ex_n ([ex_a] @ ex_b # [ex_c]) \<and>
   ring (list_element_dtor ex_b ex_heap) ex_n [ex_a, ex_c] \<and>
   next (list_element_dtor ex_b ex_heap ex_a) \<noteq> Some ex_b \<and>
   prev (list_element_dtor ex_b ex_heap ex_c) \<noteq> Some ex_b \<and>
   prev (ex_heap (7, default_tag)) = None \<and> next (ex_heap (7, default_tag)) = None \<and>
   list_element_dtor (7, default_tag) ex_heap = ex_heap"
proof -
  have "prev (ex_heap (7, default_tag)) = None \<and> next (ex_heap (7, default_tag)) = None"
    by (simp add: ex_heap_def ex_defs)
  then show ?thesis
    using dtor_correct[of ex_heap ex_n "[ex_a]" ex_b "[ex_c]"]
      dtor_correct[of ex_heap ex_n "[]" "(7, default_tag)" "[]"] ex_ring_n
    by simp
qed

text \<open>
  Claim C6. \<open>erase(pos)\<close> on an element \<open>pos\<close> of a list (so \<open>pos\<close> is not \<open>end()\<close>) succeeds,
  takes exactly \<open>pos\<close> out of the ring, makes its two former neighbours point at each other,
  returns the iterator to the element that followed \<open>pos\<close> (\<open>end()\<close> when \<open>pos\<close> was the
  last element), leaves both pointers of \<open>pos\<close> null, and changes no other link.
\<close>

theorem erase_correct:
  assumes "ring h node (C @ pos # D)"
  shows "\<exists>h'. erase pos h = Some (h', hd (D @ [end_list node])) \<and>
           ring h' node (C @ D) \<and>
           next (h' (last (node # C))) = Some (hd (D @ [node])) \<and>
           prev (h' (hd (D @ [node]))) = Some (last (node # C)) \<and>
           h' pos = \<lparr>prev = None, next = None\<rparr> \<and>
           (\<forall>p. p \<notin> set (node # C @ D) \<longrightarrow> p \<noteq> pos \<longrightarrow> h' p = h p)"
proof -
  note u = unlink_ring[OF assms]
  have "erase pos h = Some (unlink pos h, hd (D @ [end_list node]))"
    using erase_eq_unlink[OF assms] by (simp add: end_list_def)
  moreover have "next (unlink pos h (last (node # C))) = Some (hd (D @ [node]))"
    "prev (unlink pos h (hd (D @ [node]))) = Some (last (node # C))"
    using ring_split(3,4)[OF u(1)] by simp_all
  ultimately show ?thesis using u by blast
qed

theorem erase_correct_witness:
  "ring ex_heap ex_n ([ex_a] @ ex_b # [ex_c]) \<and>
   (\<exists>h'. erase ex_b ex_heap = Some (h', ex_c) \<and> ring h' ex_n [ex_a, ex_c] \<and>
      next (h' ex_a) = Some ex_c \<and> prev (h' ex_c) = Some ex_a \<and>
      h' ex_b = \<lparr>prev = None, next = None\<rparr>)"
  using erase_correct[of ex_heap ex_n "[ex_a]" ex_b "[ex_c]"] ex_ring_n by auto

text \<open>
  Claim C7. \<open>insert(pos, value)\<close> at any position \<open>pos\<close> of a list (an element or \<open>end()\<close>),
  for a value whose link is not in the list, succeeds, links the value immediately before
  \<open>pos\<close> with the rest of the sequence unchanged, returns the iterator to the value, and
  changes no other link; \<open>insert(end(), value)\<close> leaves the same memory as
  \<open>push_back(value)\<close> on the list of the default tag.
\<close>

theorem insert_correct:
  assumes "ring h node (C @ D)" and "(element, default_tag) \<notin> set (node # C @ D)"
    and "pos = hd (D @ [end_list node])"
  shows "\<exists>h'. insert_list pos element h = Some (h', (element, default_tag)) \<and>
           ring h' node (C @ (element, default_tag) # D) \<and>
           (\<forall>p. p \<notin> set ((element, default_tag) # node # C @ D) \<longrightarrow> h' p = h p) \<and>
           (pos = end_list node \<longrightarrow> push_back default_tag node element h = Some h')"
proof -
  have pos: "pos = hd (D @ [node])" using assms(3) by (simp add: end_list_def)
  from insert_ring[OF assms(1) refl assms(2) pos]
  obtain h' where h': "insert_list pos element h = Some (h', (element, default_tag))"
    "ring h' node (C @ (element, default_tag) # D)"
    "\<forall>p. p \<notin> set ((element, default_tag) # node # C @ D) \<longrightarrow> h' p = h p" by blast
  have "push_back default_tag node element h = Some h'" if "pos = end_list node"
  proof -
    have "insert_list node element h =
            map_option (\<lambda>h'. (h', (element, default_tag))) (push_back default_tag node element h)"
      by (rule insert_end_push_back[OF assms(1) refl assms(2)])
    with h'(1) that show ?thesis by (auto simp: end_list_def)
  qed
  with h' show ?thesis by blast
qed

theorem insert_correct_witness:
  "ring ex_heap ex_n ([ex_a, ex_b, ex_c] @ []) \<and> (7, default_tag) \<notin> set (ex_n # [ex_a, ex_b, ex_c] @ []) \<and>
   ex_n = hd ([] @ [end_list ex_n]) \<and>
   (\<exists>h'. insert_list ex_n 7 ex_heap = Some (h', (7, default_tag)) \<and>
      ring h' ex_n [ex_a, ex_b, ex_c, (7, default_tag)] \<and>
      push_back default_tag ex_n 7 ex_heap = Some h')"
  using insert_correct[of ex_heap ex_n "[ex_a, ex_b, ex_c]" "[]" 7 ex_n] ex_ring_n
  by (auto simp: end_list_def ex_defs)

text \<open>
  Claim C8. For two distinct list objects, after the move assignment \<open>L2 = std::move(L1)\<close>
  the source \<open>L1\<close> is an empty ring (\<open>empty()\<close> holds) and \<open>L2\<close> is the ring of the elements
  \<open>L1\<close> held, in the same order; the same holds after constructing \<open>L2\<close> by moving from
  \<open>L1\<close>, the sentinel of the source then being the one freshly allocated.
\<close>

theorem move_correct:
  assumes "ring (mem s) (list_node s L1) xs"
  shows "(list_node s L2 \<notin> set (list_node s L1 # xs) \<longrightarrow>
            ring (mem (move_assign L2 L1 s)) (list_node (move_assign L2 L1 s) L2) xs \<and>
            ring (mem (move_assign L2 L1 s)) (list_node (move_assign L2 L1 s) L1) [] \<and>
            empty_list (list_node (move_assign L2 L1 s) L1) (mem (move_assign L2 L1 s))) \<and>
         (L2 \<noteq> L1 \<and> fresh \<notin> set (list_node s L1 # xs) \<longrightarrow>
            ring (mem (move_ctor L2 L1 fresh s)) (list_node (move_ctor L2 L1 fresh s) L2) xs \<and>
            ring (mem (move_ctor L2 L1 fresh s)) (list_node (move_ctor L2 L1 fresh s) L1) [] \<and>
            empty_list (list_node (move_ctor L2 L1 fresh s) L1) (mem (move_ctor L2 L1 fresh s)))"
proof (intro conjI impI)
  assume a: "list_node s L2 \<notin> set (list_node s L1 # xs)"
  then have ne: "L2 \<noteq> L1" by auto
  have m: "mem (move_assign L2 L1 s) = clear (list_node s L2) (mem s)"
    and n2: "list_node (move_assign L2 L1 s) L2 = list_node s L1"
    and n1: "list_node (move_assign L2 L1 s) L1 = list_node s L2"
    using ne by (simp_all add: move_assign_def swap_node_def)
  from assms show "ring (mem (move_assign L2 L1 s)) (list_node (move_assign L2 L1 s) L2) xs"
    unfolding m n2
  proof (rule ring_frame)
    fix p assume "p \<in> set (list_node s L1 # xs)"
    with a have "p \<noteq> list_node s L2" by auto
    then show "clear (list_node s L2) (mem s) p = mem s p" by (rule clear_frame)
  qed
  show "ring (mem (move_assign L2 L1 s)) (list_node (move_assign L2 L1 s) L1) []"
    unfolding m n1 by (rule clear_ring)
  show "empty_list (list_node (move_assign L2 L1 s) L1) (mem (move_assign L2 L1 s))"
    unfolding m n1 by (simp add: empty_list_def clear_def)
next
  assume a: "L2 \<noteq> L1 \<and> fresh \<notin> set (list_node s L1 # xs)"
  have m: "mem (move_ctor L2 L1 fresh s) = list_ctor fresh (mem s)"
    and n2: "list_node (move_ctor L2 L1 fresh s) L2 = list_node s L1"
    and n1: "list_node (move_ctor L2 L1 fresh s) L1 = fresh"
    using a by (simp_all add: move_ctor_def swap_node_def)
  from assms show "ring (mem (move_ctor L2 L1 fresh s)) (list_node (move_ctor L2 L1 fresh s) L2) xs"
    unfolding m n2
  proof (rule ring_frame)
    fix p assume "p \<in> set (list_node s L1 # xs)"
    with a have "p \<noteq> fresh" by auto
    then show "list_ctor fresh (mem s) p = mem s p" by (rule list_ctor_frame)
  qed
  show "ring (mem (move_ctor L2 L1 fresh s)) (list_node (move_ctor L2 L1 fresh s) L1) []"
    unfolding m n1 by (rule list_ctor_ring)
  show "empty_list (list_node (move_ctor L2 L1 fresh s) L1) (mem (move_ctor L2 L1 fresh s))"
    unfolding m n1 by (simp add: empty_list_def list_ctor_def list_element_ctor_def)
qed

theorem move_correct_witness:
  "ring (mem ex_store) (list_node ex_store 1) [ex_a, ex_b, ex_c] \<and>
   list_node ex_store 2 \<notin> set (list_node ex_store 1 # [ex_a, ex_b, ex_c]) \<and>
   ring (mem (move_assign 2 1 ex_store)) (list_node (move_assign 2 1 ex_store) 2) [ex_a, ex_b, ex_c] \<and>
   empty_list (list_node (move_assign 2 1 ex_store) 1) (mem (move_assign 2 1 ex_store)) \<and>
   (3::nat) \<noteq> 1 \<and> (20, default_tag) \<notin> set (list_node ex_store 1 # [ex_a, ex_b, ex_c]) \<and>
   ring (mem (move_ctor 3 1 (20, default_tag) ex_store))
     (list_node (move_ctor 3 1 (20, default_tag) ex_store) 3) [ex_a, ex_b, ex_c] \<and>
   empty_list (list_node (move_ctor 3 1 (20, default_tag) ex_store) 1)
     (mem (move_ctor 3 1 (20, default_tag) ex_store))"
proof -
  have r: "ring (mem ex_store) (list_node ex_store 1) [ex_a, ex_b, ex_c]"
    using ex_ring_n by (simp add: ex_store_def)
  have 1: "list_node ex_store 2 \<notin> set (list_node ex_store 1 # [ex_a, ex_b, ex_c])"
    "(20, default_tag) \<notin> set (list_node ex_store 1 # [ex_a, ex_b, ex_c])"
    by (simp_all add: ex_store_def ex_defs)
  from move_correct[OF r, of 2 "(20, default_tag)"] move_correct[OF r, of 3 "(20, default_tag)"] r 1
  show ?thesis by simp
qed

text \<open>
  Claim C9. \<open>clear()\<close> makes the list empty (\<open>empty()\<close> holds and \<open>begin() == end()\<close>) and
  writes only the two pointers of the sentinel: every other link of the memory is left as
  it was, so each element that was linked in the list keeps its old, non-null \<open>prev\<close> and
  \<open>next\<close>.
\<close>

theorem clear_correct:
  "empty_list node (clear node h) \<and>
   begin_list node (clear node h) = Some (end_list node) \<and>
   ring (clear node h) node [] \<and>
   (\<forall>p. p \<noteq> node \<longrightarrow> clear node h p = h p) \<and>
   (ring h node xs \<longrightarrow>
      (\<forall>x \<in> set xs. clear node h x = h x \<and> prev (h x) \<noteq> None \<and> next (h x) \<noteq> None))"
proof -
  have "clear node h x = h x \<and> prev (h x) \<noteq> None \<and> next (h x) \<noteq> None"
    if r: "ring h node xs" and x: "x \<in> set xs" for x
  proof -
    from r x have "x \<noteq> node" by (auto simp: ring_def)
    then have "clear node h x = h x" by (rule clear_frame)
    moreover have "x \<in> set (node # xs)" using x by simp
    from ring_member_ptrs[OF r this] have "prev (h x) \<noteq> None" "next (h x) \<noteq> None" by auto
    ultimately show ?thesis by simp
  qed
  moreover have "empty_list node (clear node h)" by (simp add: empty_list_def clear_def)
  moreover have "begin_list node (clear node h) = Some (end_list node)"
    by (simp add: begin_list_def end_list_def clear_def)
  ultimately show ?thesis using clear_ring clear_frame by blast
qed

theorem clear_correct_witness:
  "ring ex_heap ex_n [ex_a, ex_b, ex_c] \<and>
   empty_list ex_n (clear ex_n ex_heap) \<and>
   clear ex_n ex_heap ex_a = \<lparr>prev = Some ex_n, next = Some ex_b\<rparr> \<and>
   clear ex_n ex_heap ex_b = \<lparr>prev = Some ex_a, next = Some ex_c\<rparr> \<and>
   clear ex_n ex_heap ex_c = \<lparr>prev = Some ex_b, next = Some ex_n\<rparr>"
proof -
  have "ex_heap ex_a = \<lparr>prev = Some ex_n, next = Some ex_b\<rparr>"
    "ex_heap ex_b = \<lparr>prev = Some ex_a, next = Some ex_c\<rparr>"
    "ex_heap ex_c = \<lparr>prev = Some ex_b, next = Some ex_n\<rparr>"
    by (simp_all add: ex_heap_def ex_defs)
  then show ?thesis
    using clear_correct[of ex_n ex_heap "[ex_a, ex_b, ex_c]"] ex_ring_n by simp
qed



end
